theory Spec2Isabelle
  imports Complex_Main "HOL-Library.Word"
begin

section \<open>Go's \<open>float64\<close>: binary64 arithmetic, round to nearest, ties to even\<close>

text \<open>
  The game keeps mana, costs, multipliers and angles in \<open>float64\<close>. A value is a signed
  finite magnitude, a signed infinity or a NaN; the two zeros are kept apart by the sign
  bit (\<open>True\<close> is the negative sign), NaN payloads are not. A finite value is well formed
  when its magnitude is a rational that binary64 represents; every operation below
  returns the exact result rounded to such a magnitude. Each operation is rounded on its
  own (no fused multiply-add), as the compiler does on amd64.
\<close>

datatype f64 = Fin bool rat | Inf bool | NaN

text \<open>\<open>ilog2 x\<close> is the floor of the binary logarithm of a positive rational.\<close>

function ilog2 :: "rat \<Rightarrow> int" where
  "ilog2 x = (if 2 \<le> x then ilog2 (x / 2) + 1
              else if 0 < x \<and> x < 1 then ilog2 (x * 2) - 1
              else 0)"
  by pat_completeness auto
termination
proof (relation "measure (\<lambda>x. if 1 \<le> x then nat \<lfloor>x\<rfloor> else if 0 < x then nat \<lfloor>1 / x\<rfloor> + 1 else 0)")
  show "wf (measure (\<lambda>x::rat. if 1 \<le> x then nat \<lfloor>x\<rfloor> else if 0 < x then nat \<lfloor>1 / x\<rfloor> + 1 else 0))"
    by simp
next
  fix x :: rat
  assume h: "2 \<le> x"
  have "x / 2 \<le> x - 1"
    using h by simp
  then have "\<lfloor>x / 2\<rfloor> \<le> \<lfloor>x - 1\<rfloor>"
    by (rule floor_mono)
  then have "\<lfloor>x / 2\<rfloor> \<le> \<lfloor>x\<rfloor> - 1"
    by simp
  moreover have "1 \<le> \<lfloor>x / 2\<rfloor>"
    using h by (simp add: le_floor_iff)
  ultimately have "nat \<lfloor>x / 2\<rfloor> < nat \<lfloor>x\<rfloor>"
    by linarith
  moreover have "1 \<le> x / 2"
    using h by simp
  ultimately show "(x / 2, x) \<in> measure (\<lambda>x. if 1 \<le> x then nat \<lfloor>x\<rfloor> else if 0 < x then nat \<lfloor>1 / x\<rfloor> + 1 else 0)"
    using h by simp
next
  fix x :: rat
  assume "\<not> 2 \<le> x" and h: "0 < x \<and> x < 1"
  have y1: "1 < 1 / x"
    using h by simp
  show "(x * 2, x) \<in> measure (\<lambda>x. if 1 \<le> x then nat \<lfloor>x\<rfloor> else if 0 < x then nat \<lfloor>1 / x\<rfloor> + 1 else 0)"
  proof (cases "1 \<le> x * 2")
    case True
    have "x * 2 < 2"
      using h by simp
    then have "\<lfloor>x * 2\<rfloor> < 2"
      by (simp add: floor_less_iff)
    moreover have "1 \<le> \<lfloor>1 / x\<rfloor>"
      using y1 by (simp add: le_floor_iff)
    ultimately have "nat \<lfloor>x * 2\<rfloor> < nat \<lfloor>1 / x\<rfloor> + 1"
      by linarith
    then show ?thesis
      using True h by simp
  next
    case False
    then have x2: "x * 2 < 1"
      by simp
    then have "2 \<le> 1 / x"
      using h by (simp add: field_simps)
    then have "(1 / x) / 2 \<le> 1 / x - 1"
      by simp
    then have "\<lfloor>(1 / x) / 2\<rfloor> \<le> \<lfloor>1 / x - 1\<rfloor>"
      by (rule floor_mono)
    then have "\<lfloor>1 / (x * 2)\<rfloor> \<le> \<lfloor>1 / x\<rfloor> - 1"
      by simp
    moreover have "1 \<le> \<lfloor>1 / x\<rfloor>"
      using y1 by (simp add: le_floor_iff)
    ultimately have "nat \<lfloor>1 / (x * 2)\<rfloor> < nat \<lfloor>1 / x\<rfloor>"
      by linarith
    then show ?thesis
      using False h by simp
  qed
qed

declare ilog2.simps [simp del]

text \<open>The nearest integer to a non-negative rational, a tie going to the even one.\<close>

definition round_half_even :: "rat \<Rightarrow> int" where
  "round_half_even y =
     (let f = \<lfloor>y\<rfloor>; d = y - of_int f
      in if d < 1 / 2 then f
         else if 1 / 2 < d then f + 1
         else if even f then f else f + 1)"

text \<open>
  The unit in the last place for a magnitude \<open>a\<close>: \<open>2 ^ (ilog2 a - 52)\<close>, so that the
  significand has 53 bits, and never below the subnormal spacing \<open>2 ^ (-1074)\<close>.
\<close>

definition pow2 :: "int \<Rightarrow> rat" where
  "pow2 e = (if 0 \<le> e then 2 ^ nat e else 1 / 2 ^ nat (- e))"

definition ulp_of :: "rat \<Rightarrow> rat" where
  "ulp_of a = pow2 (max (ilog2 a - 52) (- 1074))"

text \<open>
  \<open>round_to s a\<close> rounds the exact magnitude \<open>a \<ge> 0\<close> with sign \<open>s\<close>. The result
  overflows to an infinity when the rounded magnitude reaches \<open>2 ^ 1024\<close>.
\<close>

definition round_to :: "bool \<Rightarrow> rat \<Rightarrow> f64" where
  "round_to s a =
     (if a = 0 then Fin s 0
      else let u = ulp_of a; v = of_int (round_half_even (a / u)) * u
           in if 2 ^ 1024 \<le> v then Inf s else Fin s v)"

definition rnd :: "rat \<Rightarrow> f64" where
  "rnd x = round_to (x < 0) \<bar>x\<bar>"

text \<open>The signed value of a finite float.\<close>

definition sval :: "bool \<Rightarrow> rat \<Rightarrow> rat" where
  "sval s a = (if s then - a else a)"

fun fneg :: "f64 \<Rightarrow> f64" where
  "fneg (Fin s a) = Fin (\<not> s) a"
| "fneg (Inf s) = Inf (\<not> s)"
| "fneg NaN = NaN"

fun fadd :: "f64 \<Rightarrow> f64 \<Rightarrow> f64" where
  "fadd NaN y = NaN"
| "fadd x NaN = NaN"
| "fadd (Inf s) (Inf t) = (if s = t then Inf s else NaN)"
| "fadd (Inf s) (Fin t b) = Inf s"
| "fadd (Fin s a) (Inf t) = Inf t"
| "fadd (Fin s a) (Fin t b) =
     (let x = sval s a + sval t b in if x = 0 then Fin (s \<and> t) 0 else rnd x)"

definition fsub :: "f64 \<Rightarrow> f64 \<Rightarrow> f64" where
  "fsub x y = fadd x (fneg y)"

fun fmul :: "f64 \<Rightarrow> f64 \<Rightarrow> f64" where
  "fmul NaN y = NaN"
| "fmul x NaN = NaN"
| "fmul (Inf s) (Inf t) = Inf (s \<noteq> t)"
| "fmul (Inf s) (Fin t b) = (if b = 0 then NaN else Inf (s \<noteq> t))"
| "fmul (Fin s a) (Inf t) = (if a = 0 then NaN else Inf (s \<noteq> t))"
| "fmul (Fin s a) (Fin t b) = round_to (s \<noteq> t) (a * b)"

fun fdiv :: "f64 \<Rightarrow> f64 \<Rightarrow> f64" where
  "fdiv NaN y = NaN"
| "fdiv x NaN = NaN"
| "fdiv (Inf s) (Inf t) = NaN"
| "fdiv (Inf s) (Fin t b) = Inf (s \<noteq> t)"
| "fdiv (Fin s a) (Inf t) = Fin (s \<noteq> t) 0"
| "fdiv (Fin s a) (Fin t b) =
     (if b = 0 then (if a = 0 then NaN else Inf (s \<noteq> t))
      else round_to (s \<noteq> t) (a / b))"

text \<open>Comparisons: every comparison with a NaN is false, and the two zeros are equal.\<close>

fun flt :: "f64 \<Rightarrow> f64 \<Rightarrow> bool" where
  "flt NaN y = False"
| "flt x NaN = False"
| "flt (Inf s) (Inf t) = (s \<and> \<not> t)"
| "flt (Inf s) (Fin t b) = s"
| "flt (Fin s a) (Inf t) = (\<not> t)"
| "flt (Fin s a) (Fin t b) = (sval s a < sval t b)"

fun fle :: "f64 \<Rightarrow> f64 \<Rightarrow> bool" where
  "fle NaN y = False"
| "fle x NaN = False"
| "fle (Inf s) (Inf t) = (s \<or> \<not> t)"
| "fle (Inf s) (Fin t b) = s"
| "fle (Fin s a) (Inf t) = (\<not> t)"
| "fle (Fin s a) (Fin t b) = (sval s a \<le> sval t b)"

definition fgt :: "f64 \<Rightarrow> f64 \<Rightarrow> bool" where
  "fgt x y = flt y x"

definition fge :: "f64 \<Rightarrow> f64 \<Rightarrow> bool" where
  "fge x y = fle y x"

text \<open>A floating-point literal of the source is the nearest binary64 value.\<close>

definition lit :: "rat \<Rightarrow> f64" where
  "lit q = rnd q"

text \<open>\<open>float64(n)\<close> for an integer \<open>n\<close>.\<close>

definition f64_of_int :: "int \<Rightarrow> f64" where
  "f64_of_int n = rnd (of_int n)"

text \<open>
  \<open>int64(x)\<close> truncates towards zero. Where the value does not fit, Go leaves the result
  to the implementation; amd64 gives the smallest \<open>int64\<close>.
\<close>

definition int64_of_f64 :: "f64 \<Rightarrow> 64 word" where
  "int64_of_f64 x =
     (case x of
        Fin s a \<Rightarrow>
          (let n = (if s then - \<lfloor>a\<rfloor> else \<lfloor>a\<rfloor>)
           in if - (2 ^ 63) \<le> n \<and> n < 2 ^ 63 then word_of_int n else word_of_int (- (2 ^ 63)))
      | Inf s \<Rightarrow> word_of_int (- (2 ^ 63))
      | NaN \<Rightarrow> word_of_int (- (2 ^ 63)))"

text \<open>The untyped constant \<open>math.Pi\<close> of Go's standard library, an exact decimal.\<close>

definition math_Pi :: rat where
  "math_Pi = 314159265358979323846264338327950288419716939937510582097494459 / 10 ^ 62"


section \<open>The game state\<close>

text \<open>
  \<open>Generator\<close> and \<open>Game\<close> are the two structs of \<open>main.go\<close>. Go's \<open>int\<close> is the 64-bit
  two's-complement integer of the target; \<open>sint\<close> reads it. The font handle of the
  \<open>Game\<close> struct is an opaque pointer that only \<open>Draw\<close> reads and is left out.
\<close>

record Generator =
  name :: string
  cost :: f64
  speedPerLevel :: f64
  level :: "64 word"
  description :: string
  timer :: "64 word"
  manaMultiplier :: f64

record Game =
  mana :: f64
  manaPerSec :: "64 word"
  orbX :: f64
  orbY :: f64
  orbClicked :: bool
  clickAnimation :: "64 word"
  generators :: "Generator list"
  tickCounter :: "64 word"
  animationTime :: f64
  rotationAngles :: "f64 list"
  totalMultiplier :: f64

text \<open>An index outside a slice or an array literal makes the Go runtime panic.\<close>

datatype error = IndexOutOfRange

subsection \<open>\<open>calculateManaPerSec\<close>\<close>

text \<open>
  The loop of \<open>calculateManaPerSec\<close>: starting from \<open>1.0\<close>, multiply by each generator's
  \<open>manaMultiplier\<close> in slice order.
\<close>

definition multiplierProduct :: "Generator list \<Rightarrow> f64" where
  "multiplierProduct gs = foldl (\<lambda>t generator. fmul t (manaMultiplier generator)) (lit 1) gs"

definition calculateManaPerSec :: "Game \<Rightarrow> Game" where
  "calculateManaPerSec g =
     (let g1 = g\<lparr>totalMultiplier := multiplierProduct (generators g)\<rparr>
      in g1\<lparr>manaPerSec := int64_of_f64 (fadd (fmul (totalMultiplier g1) (lit 100)) (lit (1 / 2)))\<rparr>)"

subsection \<open>\<open>NewGame\<close>\<close>

definition screenWidth :: int where
  "screenWidth = 1920"

definition screenHeight :: int where
  "screenHeight = 1080"

definition orbSize :: int where
  "orbSize = 100"

definition initialGenerators :: "Generator list" where
  "initialGenerators =
     [\<lparr>name = ''Mana Crystal'', cost = lit 3, speedPerLevel = lit (1 / 10), level = 5,
       description = ''Basic mana generation crystal'', timer = 0, manaMultiplier = lit 1\<rparr>,
      \<lparr>name = ''Arcane Tower'', cost = lit 50, speedPerLevel = lit (8 / 100), level = 0,
       description = ''Mystical mana channeling tower'', timer = 0, manaMultiplier = lit 1\<rparr>,
      \<lparr>name = ''Ley Line Node'', cost = lit 250, speedPerLevel = lit (5 / 100), level = 0,
       description = ''Powerful magical energy nexus'', timer = 0, manaMultiplier = lit 1\<rparr>,
      \<lparr>name = ''Elder Artifact'', cost = lit 1000, speedPerLevel = lit (2 / 100), level = 0,
       description = ''Ancient relic of immense power'', timer = 0, manaMultiplier = lit 1\<rparr>]"

definition NewGame :: Game where
  "NewGame =
     calculateManaPerSec
       \<lparr>mana = lit 0, manaPerSec = 0,
        orbX = f64_of_int (screenWidth div 2 - orbSize div 2),
        orbY = f64_of_int (screenHeight div 2 - orbSize div 2),
        orbClicked = False, clickAnimation = 0,
        generators = initialGenerators,
        tickCounter = 0, animationTime = lit 0,
        rotationAngles = replicate 4 (lit 0),
        totalMultiplier = lit 0\<rparr>"

subsection \<open>\<open>purchase\<close>: the body of a hit in \<open>handleGeneratorClicks\<close>\<close>

definition scalingFactor :: "f64 list" where
  "scalingFactor = [lit (115 / 100), lit (12 / 10), lit (12 / 10), lit (12 / 10)]"

definition purchase :: "nat \<Rightarrow> Game \<Rightarrow> error + Game" where
  "purchase i g =
     (if length (generators g) \<le> i then Inl IndexOutOfRange
      else if fge (mana g) (cost (generators g ! i)) then
        if sint (level (generators g ! i)) < 100 then
          let g1 = g\<lparr>mana := fsub (mana g) (cost (generators g ! i))\<rparr>;
              g2 = g1\<lparr>generators := (generators g1)
                      [i := (generators g1 ! i)\<lparr>level := level (generators g1 ! i) + 1\<rparr>]\<rparr>;
              g3 = calculateManaPerSec g2
          in if length scalingFactor \<le> i then Inl IndexOutOfRange
             else Inr (g3\<lparr>generators := (generators g3)
                        [i := (generators g3 ! i)
                           \<lparr>cost := fmul (cost (generators g3 ! i)) (scalingFactor ! i)\<rparr>]\<rparr>)
        else Inr g
      else Inr g)"

subsection \<open>\<open>handleGeneratorClicks\<close>\<close>

fun textOrigin :: "nat \<Rightarrow> int \<times> int" where
  "textOrigin i =
     (if i = 0 then (30, 120)
      else if i = 1 then (screenWidth - 400, 120)
      else if i = 2 then (30, screenHeight - 200)
      else if i = 3 then (screenWidth - 400, screenHeight - 200)
      else (0, 0))"

fun clicksFrom :: "int \<Rightarrow> int \<Rightarrow> nat list \<Rightarrow> Game \<Rightarrow> error + Game" where
  "clicksFrom x y [] g = Inr g"
| "clicksFrom x y (i # rest) g =
     (case textOrigin i of
        (textX, textY) \<Rightarrow>
          if textX \<le> x \<and> x \<le> textX + 370 \<and> textY \<le> y \<and> y \<le> textY + 130
          then purchase i g
          else clicksFrom x y rest g)"

definition handleGeneratorClicks :: "int \<Rightarrow> int \<Rightarrow> Game \<Rightarrow> error + Game" where
  "handleGeneratorClicks x y g = clicksFrom x y [0..<length (generators g)] g"

subsection \<open>\<open>Update\<close>\<close>

definition twoPi :: f64 where
  "twoPi = rnd (2 * math_Pi)"

text \<open>Radians per tick of a generator: \<open>totalSpeed * 2 * math.Pi / 60.0\<close>.\<close>

definition rotationSpeed :: "Generator \<Rightarrow> f64" where
  "rotationSpeed generator =
     (let totalSpeed = fmul (speedPerLevel generator) (f64_of_int (sint (level generator)))
      in fdiv (fmul (fmul totalSpeed (lit 2)) (lit math_Pi)) (lit 60))"

text \<open>The body of the rotation loop for the index \<open>i\<close> of \<open>range g.generators\<close>.\<close>

definition rotate :: "nat \<Rightarrow> Game \<Rightarrow> error + Game" where
  "rotate i g =
     (if length (generators g) \<le> i then Inl IndexOutOfRange
      else if 0 < sint (level (generators g ! i)) then
        if length (rotationAngles g) \<le> i then Inl IndexOutOfRange
        else
          let oldAngle = rotationAngles g ! i;
              g1 = g\<lparr>rotationAngles := (rotationAngles g)
                      [i := fadd oldAngle (rotationSpeed (generators g ! i))]\<rparr>;
              g2 = (if flt oldAngle twoPi \<and> fge (rotationAngles g1 ! i) twoPi
                    then g1\<lparr>generators := (generators g1)
                            [i := (generators g1 ! i)
                               \<lparr>manaMultiplier :=
                                  fadd (manaMultiplier (generators g1 ! i)) (lit (1 / 100))\<rparr>]\<rparr>
                    else g1)
          in Inr (if fge (rotationAngles g2 ! i) twoPi
                  then g2\<lparr>rotationAngles := (rotationAngles g2)
                          [i := fsub (rotationAngles g2 ! i) twoPi]\<rparr>
                  else g2)
      else Inr g)"

fun rotateAll :: "nat list \<Rightarrow> Game \<Rightarrow> error + Game" where
  "rotateAll [] g = Inr g"
| "rotateAll (i # rest) g =
     (case rotate i g of Inl e \<Rightarrow> Inl e | Inr g' \<Rightarrow> rotateAll rest g')"

text \<open>The click animation and the animation clock, lines 96 to 105.\<close>

definition animate :: "Game \<Rightarrow> Game" where
  "animate g =
     (let g1 = (if 0 < sint (clickAnimation g)
                then g\<lparr>clickAnimation := clickAnimation g - 1\<rparr> else g);
          g2 = (if clickAnimation g1 = 0 then g1\<lparr>orbClicked := False\<rparr> else g1)
      in g2\<lparr>animationTime := fadd (animationTime g2) (lit (16 / 1000))\<rparr>)"

text \<open>The accrual step, lines 107 to 117.\<close>

definition accrue :: "Game \<Rightarrow> Game" where
  "accrue g =
     (let g1 = g\<lparr>tickCounter := tickCounter g + 1\<rparr>
      in if 60 \<le> sint (tickCounter g1) then
           let g2 = calculateManaPerSec g1;
               g3 = (if fgt (totalMultiplier g2) (lit 0)
                     then g2\<lparr>mana := fadd (mana g2) (totalMultiplier g2)\<rparr> else g2)
           in g3\<lparr>tickCounter := 0\<rparr>
         else g1)"

text \<open>
  \<open>advance\<close> is \<open>Update\<close> in a frame without a click: the animation, the accrual step
  and the rotation loop.
\<close>

definition advance :: "Game \<Rightarrow> error + Game" where
  "advance g =
     (let g1 = accrue (animate g)
      in rotateAll [0..<length (generators g1)] g1)"

text \<open>\<open>Update\<close> with the frame's input: the cursor position when the left button was just pressed.\<close>

definition Update :: "(int \<times> int) option \<Rightarrow> Game \<Rightarrow> error + Game" where
  "Update click g =
     (case click of
        None \<Rightarrow> advance g
      | Some (x, y) \<Rightarrow>
          (case handleGeneratorClicks x y g of Inl e \<Rightarrow> Inl e | Inr g' \<Rightarrow> advance g'))"

text \<open>\<open>advances n\<close> is \<open>n\<close> frames without a click, stopping at the first panic.\<close>

fun advances :: "nat \<Rightarrow> Game \<Rightarrow> error + Game" where
  "advances 0 g = Inr g"
| "advances (Suc n) g = (case advance g of Inl e \<Rightarrow> Inl e | Inr g' \<Rightarrow> advances n g')"

text \<open>
  What one pass of the loop body does to a generator and to its angle, as functions of
  the generator and the angle before the pass.
\<close>

definition spinAngle :: "Generator \<Rightarrow> f64 \<Rightarrow> f64" where
  "spinAngle generator a =
     (if 0 < sint (level generator)
      then if fge (fadd a (rotationSpeed generator)) twoPi
           then fsub (fadd a (rotationSpeed generator)) twoPi
           else fadd a (rotationSpeed generator)
      else a)"

definition spinGenerator :: "Generator \<Rightarrow> f64 \<Rightarrow> Generator" where
  "spinGenerator generator a =
     (if 0 < sint (level generator) \<and> flt a twoPi \<and> fge (fadd a (rotationSpeed generator)) twoPi
      then generator\<lparr>manaMultiplier := fadd (manaMultiplier generator) (lit (1 / 100))\<rparr>
      else generator)"

text \<open>
  The states of a run from \<open>NewGame\<close> in which nothing is bought and no multiplier has
  grown yet differ from \<open>NewGame\<close> in four fields only: the mana, the tick counter, the
  animation clock and the angle of the Mana Crystal, the one generator that turns.
\<close>

definition idleState :: "f64 \<Rightarrow> 64 word \<Rightarrow> f64 \<Rightarrow> f64 \<Rightarrow> Game" where
  "idleState m k t a =
     NewGame\<lparr>mana := m, tickCounter := k, animationTime := t,
             rotationAngles := [a, lit 0, lit 0, lit 0]\<rparr>"

definition crystalStep :: f64 where
  "crystalStep = rotationSpeed (initialGenerators ! 0)"

text \<open>A state with the displayed rate \<open>manaPerSec\<close> blanked, to compare all other fields.\<close>

definition forgetManaPerSec :: "Game \<Rightarrow> Game" where
  "forgetManaPerSec g = g\<lparr>manaPerSec := 0\<rparr>"

text \<open>\<open>near x q eps\<close>: the float \<open>x\<close> is finite and within \<open>eps\<close> of the rational \<open>q\<close>.\<close>

definition near :: "f64 \<Rightarrow> rat \<Rightarrow> rat \<Rightarrow> bool" where
  "near x q eps = (case x of Fin s a \<Rightarrow> \<bar>sval s a - q\<bar> \<le> eps | Inf s \<Rightarrow> False | NaN \<Rightarrow> False)"

text \<open>The animation clock after \<open>n\<close> frames.\<close>

definition animClock :: "nat \<Rightarrow> f64" where
  "animClock n = ((\<lambda>t. fadd t (lit (16 / 1000))) ^^ n) (lit 0)"

text \<open>
  The state of a run from \<open>NewGame\<close> after 120 frames without a click: two seconds of
  mana, and the Mana Crystal has just completed its first revolution.
\<close>

definition afterFirstRevolution :: Game where
  "afterFirstRevolution =
     (idleState (Fin False 2) 0 (animClock 120) (Fin False (9 / 1125899906842624)))
       \<lparr>generators := initialGenerators
          [0 := (initialGenerators ! 0)
             \<lparr>manaMultiplier := Fin False (4548635623644201 / 4503599627370496)\<rparr>]\<rparr>"

text \<open>
  An invariant of the reachable states. A generator's level is between 0 and 100, its
  cost is finite, not negative and at most \<open>2 ^ (10 + level)\<close>, and its speed per level is
  finite, not negative and at most the \<open>float64\<close> \<open>0.1\<close>, which is
  \<open>3602879701896397 / 2 ^ 55\<close>. An angle is at least 0 and less than the \<open>float64\<close>
  \<open>2 * math.Pi\<close>. The mana is not negative.
\<close>

definition generatorOK :: "Generator \<Rightarrow> bool" where
  "generatorOK generator \<longleftrightarrow>
     0 \<le> sint (level generator) \<and> sint (level generator) \<le> 100 \<and>
     (case cost generator of
        Fin s c \<Rightarrow> \<not> s \<and> 0 \<le> c \<and> c \<le> 2 ^ (10 + nat (sint (level generator)))
      | Inf s \<Rightarrow> False | NaN \<Rightarrow> False) \<and>
     (case speedPerLevel generator of
        Fin s q \<Rightarrow> \<not> s \<and> 0 \<le> q \<and> q \<le> 3602879701896397 / 36028797018963968
      | Inf s \<Rightarrow> False | NaN \<Rightarrow> False)"

definition angleOK :: "f64 \<Rightarrow> bool" where
  "angleOK a \<longleftrightarrow> fle (lit 0) a \<and> flt a twoPi"

definition stateOK :: "Game \<Rightarrow> bool" where
  "stateOK g \<longleftrightarrow>
     list_all generatorOK (generators g) \<and> list_all angleOK (rotationAngles g) \<and>
     fle (lit 0) (mana g)"

text \<open>
  The scenario of a first purchase: \<open>NewGame\<close> with mana \<open>3.0\<close>, where the Mana Crystal
  costs \<open>3.0\<close> and is at level 5, and the state the purchase of the Mana Crystal leaves.
\<close>

definition scenarioState :: Game where
  "scenarioState = NewGame\<lparr>mana := lit 3\<rparr>"

definition scenarioBought :: Game where
  "scenarioBought =
     NewGame\<lparr>mana := Fin False 0,
             generators := initialGenerators
               [0 := (initialGenerators ! 0)
                  \<lparr>level := 6,
                   cost := Fin False (7768709357214105 / 2251799813685248)\<rparr>]\<rparr>"

text \<open>The states the program can be in: \<open>NewGame\<close>, then frames and purchases.\<close>

inductive reachable :: "Game \<Rightarrow> bool" where
  reach_new: "reachable NewGame"
| reach_advance: "reachable g \<Longrightarrow> advance g = Inr g' \<Longrightarrow> reachable g'"
| reach_purchase: "reachable g \<Longrightarrow> purchase i g = Inr g' \<Longrightarrow> reachable g'"


section \<open>Evaluating binary64 arithmetic\<close>

text \<open>
  The definitions above compute: the simplifier evaluates them on numerals with the three
  conditional equations of \<open>ilog2\<close> below. The values obtained are those of the hardware,
  for example \<open>0.1 = 3602879701896397 / 2 ^ 55\<close>.
\<close>

lemma floor_rat_numeral_div [simp]: "\<lfloor>numeral a / numeral b :: rat\<rfloor> = numeral a div numeral b"
  using floor_divide_of_int_eq [of "numeral a" "numeral b", where ?'a = rat] by simp

lemma ilog2_ge2: "2 \<le> x \<Longrightarrow> ilog2 x = ilog2 (x / 2) + 1"
  by (subst ilog2.simps) simp
lemma ilog2_lt1: "0 < x \<Longrightarrow> x < 1 \<Longrightarrow> ilog2 x = ilog2 (x * 2) - 1"
  by (subst ilog2.simps) simp
lemma ilog2_mid: "1 \<le> x \<Longrightarrow> x < 2 \<Longrightarrow> ilog2 x = 0"
  by (subst ilog2.simps) simp

lemmas f64_eval = ilog2_ge2 ilog2_lt1 ilog2_mid rnd_def round_to_def ulp_of_def pow2_def
  round_half_even_def Let_def sval_def

lemma lit_0: "lit 0 = Fin False 0"
  by (simp add: lit_def f64_eval)
lemma lit_1: "lit 1 = Fin False 1"
  by (simp add: lit_def f64_eval)
lemma lit_2: "lit 2 = Fin False 2"
  by (simp add: lit_def f64_eval)
lemma lit_3: "lit 3 = Fin False 3"
  by (simp add: lit_def f64_eval)
lemma lit_60: "lit 60 = Fin False 60"
  by (simp add: lit_def f64_eval)
lemma lit_100: "lit 100 = Fin False 100"
  by (simp add: lit_def f64_eval)
lemma lit_half: "lit (1 / 2) = Fin False (1 / 2)"
  by (simp add: lit_def f64_eval)
lemma lit_tenth: "lit (1 / 10) = Fin False (3602879701896397 / 36028797018963968)"
  by (simp add: lit_def f64_eval)
lemma lit_hundredth: "lit (1 / 100) = Fin False (5764607523034235 / 576460752303423488)"
  by (simp add: lit_def f64_eval)
lemma lit_Pi: "lit math_Pi = Fin False (884279719003555 / 281474976710656)"
  by (simp add: lit_def math_Pi_def f64_eval)
lemma twoPi_value: "twoPi = Fin False (884279719003555 / 140737488355328)"
  by (simp add: twoPi_def math_Pi_def f64_eval)

lemma crystalStep_value: "crystalStep = Fin False (7545853602163669 / 144115188075855872)"
proof -
  have "fmul (lit (1 / 10)) (f64_of_int (sint (5 :: 64 word))) = Fin False (1 / 2)"
    by (simp add: lit_tenth f64_of_int_def f64_eval)
  moreover have "fmul (Fin False (1 / 2)) (lit 2) = Fin False 1"
    by (simp add: lit_2 f64_eval)
  moreover have "fdiv (fmul (Fin False 1) (lit math_Pi)) (lit 60)
      = Fin False (7545853602163669 / 144115188075855872)"
    by (simp add: lit_Pi lit_60 f64_eval)
  ultimately show ?thesis
    by (simp add: crystalStep_def rotationSpeed_def initialGenerators_def)
qed

lemma multiplierProduct_initial: "multiplierProduct initialGenerators = Fin False 1"
  by (simp add: multiplierProduct_def initialGenerators_def lit_1 f64_eval)

lemma manaPerSec_of_one:
  "int64_of_f64 (fadd (fmul (Fin False 1) (lit 100)) (lit (1 / 2))) = 100"
  by (simp add: lit_100 lit_half int64_of_f64_def f64_eval)

lemma NewGame_fields:
  "generators NewGame = initialGenerators"
  "totalMultiplier NewGame = Fin False 1"
  "manaPerSec NewGame = 100"
  "mana NewGame = Fin False 0"
  "tickCounter NewGame = 0"
  "animationTime NewGame = Fin False 0"
  "clickAnimation NewGame = 0"
  "orbClicked NewGame = False"
  "rotationAngles NewGame = [Fin False 0, Fin False 0, Fin False 0, Fin False 0]"
  by (simp_all add: NewGame_def calculateManaPerSec_def multiplierProduct_initial
      manaPerSec_of_one lit_0 numeral_eq_Suc)


section \<open>The rotation loop\<close>

lemma flt_not_fge: "flt a b \<Longrightarrow> \<not> fge a b"
  by (cases a; cases b) (auto simp: fge_def)

lemma rotate_eq:
  assumes "i < length (generators g)"
    and "0 < sint (level (generators g ! i)) \<longrightarrow> i < length (rotationAngles g)"
  shows "rotate i g =
           Inr (g\<lparr>generators := (generators g)
                     [i := spinGenerator (generators g ! i) (rotationAngles g ! i)],
                  rotationAngles := (rotationAngles g)
                     [i := spinAngle (generators g ! i) (rotationAngles g ! i)]\<rparr>)"
  using assms by (auto simp: rotate_def spinGenerator_def spinAngle_def Let_def)

lemma rotate_Inr:
  assumes "rotate i g = Inr g'"
  shows "i < length (generators g)"
    and "0 < sint (level (generators g ! i)) \<longrightarrow> i < length (rotationAngles g)"
  using assms by (auto simp: rotate_def Let_def split: if_splits)

lemma spin_idle:
  assumes "\<not> 0 < sint (level generator)"
  shows "spinGenerator generator a = generator" and "spinAngle generator a = a"
  using assms by (simp_all add: spinGenerator_def spinAngle_def)

lemma rotate_effect:
  assumes "rotate i g = Inr g'"
  shows "generators g' ! j =
           (if j = i then spinGenerator (generators g ! i) (rotationAngles g ! i)
            else generators g ! j)"
    and "rotationAngles g' ! j =
           (if j = i then spinAngle (generators g ! i) (rotationAngles g ! i)
            else rotationAngles g ! j)"
    and "length (generators g') = length (generators g)"
    and "length (rotationAngles g') = length (rotationAngles g)"
    and "g' = g\<lparr>generators := generators g', rotationAngles := rotationAngles g'\<rparr>"
proof -
  note r = rotate_Inr [OF assms]
  have eq: "g' = g\<lparr>generators := (generators g)
                     [i := spinGenerator (generators g ! i) (rotationAngles g ! i)],
                  rotationAngles := (rotationAngles g)
                     [i := spinAngle (generators g ! i) (rotationAngles g ! i)]\<rparr>"
    using rotate_eq [OF r] assms by simp
  show "generators g' ! j =
           (if j = i then spinGenerator (generators g ! i) (rotationAngles g ! i)
            else generators g ! j)"
    using r(1) by (simp add: eq)
  show "rotationAngles g' ! j =
           (if j = i then spinAngle (generators g ! i) (rotationAngles g ! i)
            else rotationAngles g ! j)"
  proof (cases "0 < sint (level (generators g ! i))")
    case True
    then show ?thesis using r(2) by (simp add: eq)
  next
    case False
    then show ?thesis by (simp add: eq spin_idle)
  qed
  show "length (generators g') = length (generators g)"
    by (simp add: eq)
  show "length (rotationAngles g') = length (rotationAngles g)"
    by (simp add: eq)
  show "g' = g\<lparr>generators := generators g', rotationAngles := rotationAngles g'\<rparr>"
    by (simp add: eq)
qed

lemma rotateAll_effect:
  assumes "rotateAll ks g = Inr g'" and "distinct ks"
  shows "(\<forall>j. generators g' ! j =
            (if j \<in> set ks then spinGenerator (generators g ! j) (rotationAngles g ! j)
             else generators g ! j)) \<and>
         (\<forall>j. rotationAngles g' ! j =
            (if j \<in> set ks then spinAngle (generators g ! j) (rotationAngles g ! j)
             else rotationAngles g ! j)) \<and>
         length (generators g') = length (generators g) \<and>
         length (rotationAngles g') = length (rotationAngles g) \<and>
         g' = g\<lparr>generators := generators g', rotationAngles := rotationAngles g'\<rparr>"
  using assms
proof (induction ks arbitrary: g)
  case Nil
  then show ?case by simp
next
  case (Cons k ks)
  from Cons.prems(1) obtain g1 where g1: "rotate k g = Inr g1" and rest: "rotateAll ks g1 = Inr g'"
    by (auto split: sum.splits)
  from Cons.prems(2) have d: "distinct ks" and nk: "k \<notin> set ks"
    by simp_all
  note e = rotate_effect [OF g1]
  note ih = Cons.IH [OF rest d]
  have frame: "g' = g\<lparr>generators := generators g', rotationAngles := rotationAngles g'\<rparr>"
  proof -
    have "g' = g1\<lparr>generators := generators g', rotationAngles := rotationAngles g'\<rparr>"
      using ih by blast
    also have "\<dots> = g\<lparr>generators := generators g', rotationAngles := rotationAngles g'\<rparr>"
      by (subst e(5)) simp
    finally show ?thesis .
  qed
  show ?case
    using ih nk frame by (auto simp: e(1,2,3,4))
qed

section \<open>A run from \<open>NewGame\<close> before the first revolution\<close>

lemma idleState_fields:
  "mana (idleState m k t a) = m"
  "tickCounter (idleState m k t a) = k"
  "animationTime (idleState m k t a) = t"
  "rotationAngles (idleState m k t a) = [a, Fin False 0, Fin False 0, Fin False 0]"
  "generators (idleState m k t a) = initialGenerators"
  "totalMultiplier (idleState m k t a) = Fin False 1"
  "manaPerSec (idleState m k t a) = 100"
  "clickAnimation (idleState m k t a) = 0"
  "orbClicked (idleState m k t a) = False"
  by (simp_all add: idleState_def NewGame_fields lit_0)

lemma idleState_updates:
  "(idleState m k t a)\<lparr>mana := m'\<rparr> = idleState m' k t a"
  "(idleState m k t a)\<lparr>tickCounter := k'\<rparr> = idleState m k' t a"
  "(idleState m k t a)\<lparr>animationTime := t'\<rparr> = idleState m k t' a"
  "(idleState m k t a)\<lparr>rotationAngles := [a', Fin False 0, Fin False 0, Fin False 0]\<rparr>
     = idleState m k t a'"
  "(idleState m k t a)\<lparr>orbClicked := False\<rparr> = idleState m k t a"
  "(idleState m k t a)\<lparr>totalMultiplier := Fin False 1\<rparr> = idleState m k t a"
  "(idleState m k t a)\<lparr>manaPerSec := 100\<rparr> = idleState m k t a"
  "(idleState m k t a)\<lparr>generators := initialGenerators\<rparr> = idleState m k t a"
  by (simp_all add: idleState_def NewGame_fields lit_0)

lemma NewGame_idleState: "NewGame = idleState (Fin False 0) 0 (Fin False 0) (Fin False 0)"
  by (simp add: idleState_def NewGame_fields lit_0)

lemma animate_idleState:
  "animate (idleState m k t a) = idleState m k (fadd t (lit (16 / 1000))) a"
  by (simp add: animate_def idleState_fields idleState_updates Let_def)

lemma calculateManaPerSec_idleState:
  "calculateManaPerSec (idleState m k t a) = idleState m k t a"
  by (simp add: calculateManaPerSec_def idleState_fields idleState_updates Let_def
      multiplierProduct_initial manaPerSec_of_one)

lemma accrue_idleState:
  "accrue (idleState m k t a) =
     idleState (if 60 \<le> sint (k + 1) then fadd m (Fin False 1) else m)
               (if 60 \<le> sint (k + 1) then 0 else k + 1) t a"
proof -
  have pos: "fgt (Fin False 1) (lit 0)"
    by (simp add: fgt_def lit_0 sval_def)
  show ?thesis
    by (simp add: accrue_def Let_def idleState_updates idleState_fields
        calculateManaPerSec_idleState pos)
qed

lemma initial_levels:
  "sint (level (initialGenerators ! 0)) = 5"
  "sint (level (initialGenerators ! Suc 0)) = 0"
  "sint (level (initialGenerators ! 2)) = 0"
  "sint (level (initialGenerators ! 3)) = 0"
  "length initialGenerators = 4"
  by (simp_all add: initialGenerators_def)

lemma rotateAll_idleState:
  assumes "flt (fadd a crystalStep) twoPi"
  shows "rotateAll [0..<length (generators (idleState m k t a))] (idleState m k t a)
           = Inr (idleState m k t (fadd a crystalStep))"
proof -
  have upt4: "[0..<4] = [0, Suc 0, 2, 3]"
    by (simp add: upt_rec)
  have nocross: "\<not> fge (fadd a crystalStep) twoPi"
    using assms by (rule flt_not_fge)
  have r0: "rotate 0 (idleState m k t a) = Inr (idleState m k t (fadd a crystalStep))"
    using nocross
    by (subst rotate_eq)
       (simp_all add: idleState_fields initial_levels spinGenerator_def spinAngle_def
          crystalStep_def idleState_updates)
  have r: "rotate j (idleState m k t a') = Inr (idleState m k t a')"
    if "j = Suc 0 \<or> j = 2 \<or> j = 3" for j a'
    using that
    by (subst rotate_eq)
       (auto simp add: idleState_fields initial_levels spin_idle idleState_updates)
  show ?thesis
    by (simp add: idleState_fields initial_levels upt4 r0 r)
qed

lemma advance_idleState:
  assumes "flt (fadd a crystalStep) twoPi"
  shows "advance (idleState m k t a) =
     Inr (idleState (if 60 \<le> sint (k + 1) then fadd m (Fin False 1) else m)
                    (if 60 \<le> sint (k + 1) then 0 else k + 1)
                    (fadd t (lit (16 / 1000))) (fadd a crystalStep))"
  unfolding advance_def Let_def animate_idleState accrue_idleState
  using assms by (rule rotateAll_idleState)

section \<open>What a frame changes\<close>

lemma animate_frame:
  "generators (animate g) = generators g"
  "rotationAngles (animate g) = rotationAngles g"
  "mana (animate g) = mana g"
  "tickCounter (animate g) = tickCounter g"
  "totalMultiplier (animate g) = totalMultiplier g"
  "manaPerSec (animate g) = manaPerSec g"
  by (simp_all add: animate_def Let_def)

lemma calculateManaPerSec_fields:
  "generators (calculateManaPerSec g) = generators g"
  "rotationAngles (calculateManaPerSec g) = rotationAngles g"
  "mana (calculateManaPerSec g) = mana g"
  "tickCounter (calculateManaPerSec g) = tickCounter g"
  "totalMultiplier (calculateManaPerSec g) = multiplierProduct (generators g)"
  "manaPerSec (calculateManaPerSec g) =
     int64_of_f64 (fadd (fmul (multiplierProduct (generators g)) (lit 100)) (lit (1 / 2)))"
  by (simp_all add: calculateManaPerSec_def Let_def)

lemma accrue_fields:
  "generators (accrue g) = generators g"
  "rotationAngles (accrue g) = rotationAngles g"
  "tickCounter (accrue g) = (if 60 \<le> sint (tickCounter g + 1) then 0 else tickCounter g + 1)"
  "mana (accrue g) =
     (if 60 \<le> sint (tickCounter g + 1) \<and> fgt (multiplierProduct (generators g)) (lit 0)
      then fadd (mana g) (multiplierProduct (generators g)) else mana g)"
  "totalMultiplier (accrue g) =
     (if 60 \<le> sint (tickCounter g + 1) then multiplierProduct (generators g)
      else totalMultiplier g)"
  by (simp_all add: accrue_def Let_def calculateManaPerSec_fields)

lemma advance_effect:
  assumes "advance g = Inr g'"
  shows "g' = (accrue (animate g))\<lparr>generators := generators g', rotationAngles := rotationAngles g'\<rparr>"
    and "length (generators g') = length (generators g)"
    and "length (rotationAngles g') = length (rotationAngles g)"
    and "j < length (generators g) \<Longrightarrow>
           generators g' ! j = spinGenerator (generators g ! j) (rotationAngles g ! j)"
    and "j < length (generators g) \<Longrightarrow>
           rotationAngles g' ! j = spinAngle (generators g ! j) (rotationAngles g ! j)"
proof -
  let ?h = "accrue (animate g)"
  have r: "rotateAll [0..<length (generators ?h)] ?h = Inr g'"
    using assms by (simp add: advance_def Let_def)
  note e = rotateAll_effect [OF r distinct_upt]
  have h: "generators ?h = generators g" "rotationAngles ?h = rotationAngles g"
    by (simp_all add: accrue_fields animate_frame)
  show "g' = ?h\<lparr>generators := generators g', rotationAngles := rotationAngles g'\<rparr>"
    using e by blast
  show "length (generators g') = length (generators g)"
    using e h by simp
  show "length (rotationAngles g') = length (rotationAngles g)"
    using e h by simp
  show "generators g' ! j = spinGenerator (generators g ! j) (rotationAngles g ! j)"
    if "j < length (generators g)"
    using e h that by simp
  show "rotationAngles g' ! j = spinAngle (generators g ! j) (rotationAngles g ! j)"
    if "j < length (generators g)"
    using e h that by simp
qed

lemma advance_frame:
  assumes "advance g = Inr g'"
  shows "mana g' = mana (accrue g)"
    and "tickCounter g' = tickCounter (accrue g)"
    and "totalMultiplier g' = totalMultiplier (accrue g)"
proof -
  have eq: "g' = (accrue (animate g))\<lparr>generators := generators g', rotationAngles := rotationAngles g'\<rparr>"
    using assms by (rule advance_effect(1))
  have "mana g' = mana (accrue (animate g))"
    by (subst eq) simp
  then show "mana g' = mana (accrue g)"
    by (simp add: accrue_fields animate_frame)
  have "tickCounter g' = tickCounter (accrue (animate g))"
    by (subst eq) simp
  then show "tickCounter g' = tickCounter (accrue g)"
    by (simp add: accrue_fields animate_frame)
  have "totalMultiplier g' = totalMultiplier (accrue (animate g))"
    by (subst eq) simp
  then show "totalMultiplier g' = totalMultiplier (accrue g)"
    by (simp add: accrue_fields animate_frame)
qed

lemma first_step_no_crossing: "flt (fadd (Fin False 0) crystalStep) twoPi"
  by (simp add: crystalStep_value twoPi_value sval_def) (simp add: f64_eval)

lemma advance_NewGame:
  "advance NewGame =
     Inr (idleState (Fin False 0) 1 (fadd (Fin False 0) (lit (16 / 1000)))
            (fadd (Fin False 0) crystalStep))"
  unfolding NewGame_idleState
  by (subst advance_idleState [OF first_step_no_crossing]) simp

lemma sint_succ:
  fixes x :: "64 word"
  assumes "sint x < 2 ^ 63 - 1"
  shows "sint (x + 1) = sint x + 1"
proof -
  have lo: "- (2 ^ 63) \<le> sint x"
    using sint_ge [of x] by simp
  have "sint (x + 1) = signed_take_bit 63 (sint x + 1)"
    by (simp add: sint_word_ariths)
  also have "\<dots> = sint x + 1"
    using assms lo by (intro signed_take_bit_int_eq_self) simp_all
  finally show ?thesis .
qed

lemma advance_idle_generator:
  assumes "advance g = Inr g'" and "i < length (generators g)"
    and "level (generators g ! i) = 0"
  shows "rotationAngles g' ! i = rotationAngles g ! i"
    and "generators g' ! i = generators g ! i"
    and "length (generators g') = length (generators g)"
  using assms advance_effect [OF assms(1)] by (simp_all add: spin_idle)

lemma rotateAll_in_range:
  assumes "rotateAll ks g = Inr g'" and "distinct ks" and "k \<in> set ks"
    and "0 < sint (level (generators g ! k))"
  shows "k < length (rotationAngles g)"
  using assms
proof (induction ks arbitrary: g)
  case Nil
  then show ?case by simp
next
  case (Cons j ks)
  from Cons.prems(1) obtain g1 where g1: "rotate j g = Inr g1" and rest: "rotateAll ks g1 = Inr g'"
    by (auto split: sum.splits)
  note e = rotate_effect [OF g1]
  show ?case
  proof (cases "k = j")
    case True
    then show ?thesis
      using rotate_Inr(2) [OF g1] Cons.prems(4) by simp
  next
    case False
    then have "k \<in> set ks" and "distinct ks"
      using Cons.prems(2,3) by simp_all
    moreover have "0 < sint (level (generators g1 ! k))"
      using False Cons.prems(4) by (simp add: e(1))
    ultimately have "k < length (rotationAngles g1)"
      using rest by (intro Cons.IH)
    then show ?thesis
      by (simp add: e(4))
  qed
qed

lemma advance_in_range:
  assumes "advance g = Inr g'" and "i < length (generators g)"
    and "0 < sint (level (generators g ! i))"
  shows "i < length (rotationAngles g)"
proof -
  let ?h = "accrue (animate g)"
  have h: "generators ?h = generators g" "rotationAngles ?h = rotationAngles g"
    by (simp_all add: accrue_fields animate_frame)
  have r: "rotateAll [0..<length (generators ?h)] ?h = Inr g'"
    using assms(1) by (simp add: advance_def Let_def)
  have mem: "i \<in> set [0..<length (generators ?h)]"
    using assms(2) by (simp add: h)
  have lvl: "0 < sint (level (generators ?h ! i))"
    using assms(3) by (simp add: h)
  have "i < length (rotationAngles ?h)"
    using r distinct_upt mem lvl by (rule rotateAll_in_range)
  then show ?thesis
    by (simp add: h)
qed

lemma scalingFactor_nth:
  "i < 4 \<Longrightarrow> scalingFactor ! i = lit (if i = 0 then 115 / 100 else 12 / 10)"
  "length scalingFactor = 4"
  by (auto simp: scalingFactor_def nth_Cons split: nat.splits)

lemma multiplierProduct_map:
  "multiplierProduct gs = foldl fmul (lit 1) (map manaMultiplier gs)"
  by (simp add: multiplierProduct_def foldl_map)

lemma multiplierProduct_cong:
  assumes "map manaMultiplier gs = map manaMultiplier hs"
  shows "multiplierProduct gs = multiplierProduct hs"
  using assms by (simp add: multiplierProduct_map)

lemma map_manaMultiplier_update:
  assumes "manaMultiplier x = manaMultiplier (gs ! i)"
  shows "map manaMultiplier (gs[i := x]) = map manaMultiplier gs"
proof (cases "i < length gs")
  case True
  have "map manaMultiplier (gs[i := x]) = (map manaMultiplier gs)[i := map manaMultiplier gs ! i]"
    using True assms by (simp add: map_update)
  then show ?thesis
    by simp
next
  case False
  then show ?thesis by (simp add: list_update_beyond)
qed

lemma purchase_eq:
  assumes "i < length (generators g)" and "i < 4"
    and "fge (mana g) (cost (generators g ! i))" and "sint (level (generators g ! i)) < 100"
  shows "purchase i g =
     Inr (g\<lparr>mana := fsub (mana g) (cost (generators g ! i)),
            totalMultiplier := multiplierProduct (generators g),
            manaPerSec := int64_of_f64
              (fadd (fmul (multiplierProduct (generators g)) (lit 100)) (lit (1 / 2))),
            generators := (generators g)
              [i := (generators g ! i)
                 \<lparr>level := level (generators g ! i) + 1,
                  cost := fmul (cost (generators g ! i)) (scalingFactor ! i)\<rparr>]\<rparr>)"
proof -
  have mp: "multiplierProduct ((generators g)
      [i := (generators g ! i)\<lparr>level := level (generators g ! i) + 1\<rparr>])
      = multiplierProduct (generators g)"
    by (rule multiplierProduct_cong) (simp add: map_manaMultiplier_update)
  show ?thesis
    using assms
    by (simp add: purchase_def Let_def calculateManaPerSec_def scalingFactor_nth(2) mp)
qed

lemma purchase_cases:
  assumes "purchase i g = Inr g'"
  shows "i < length (generators g)"
    and "g' \<noteq> g \<Longrightarrow> i < 4 \<and> fge (mana g) (cost (generators g ! i)) \<and>
           sint (level (generators g ! i)) < 100"
  using assms by (auto simp: purchase_def Let_def scalingFactor_nth(2) split: if_splits)

lemma scenario_cost_value:
  "fmul (lit 3) (lit (115 / 100)) = Fin False (7768709357214105 / 2251799813685248)"
  "lit (345 / 100) = Fin False (3884354678607053 / 1125899906842624)"
  "fmul (lit 3) (lit (115 / 100)) \<noteq> lit (345 / 100)"
  by (simp_all add: lit_def f64_eval)

section \<open>Two minutes of frames from \<open>NewGame\<close>\<close>

lemma animClock_simps:
  "animClock 0 = Fin False 0"
  "animClock (Suc n) = fadd (animClock n) (lit (16 / 1000))"
  by (simp_all add: animClock_def lit_0)

lemma advances_idle_step:
  assumes "flt (fadd a crystalStep) twoPi"
  shows "advances (Suc n) (idleState m k (animClock j) a) =
     advances n (idleState (if 60 \<le> sint (k + 1) then fadd m (Fin False 1) else m)
                    (if 60 \<le> sint (k + 1) then 0 else k + 1)
                    (animClock (j + 1)) (fadd a crystalStep))"
  by (simp add: advance_idleState [OF assms] animClock_simps)

lemma advances_idle_numeral:
  assumes "flt (fadd a crystalStep) twoPi"
  shows "advances (numeral v) (idleState m k (animClock j) a) =
     advances (pred_numeral v) (idleState (if 60 \<le> sint (k + 1) then fadd m (Fin False 1) else m)
                    (if 60 \<le> sint (k + 1) then 0 else k + 1)
                    (animClock (j + 1)) (fadd a crystalStep))"
  using advances_idle_step [OF assms, of "pred_numeral v"] by (simp add: numeral_eq_Suc)

lemma advances_idle_one:
  assumes "flt (fadd a crystalStep) twoPi"
  shows "advances (Suc 0) (idleState m k (animClock j) a) =
     Inr (idleState (if 60 \<le> sint (k + 1) then fadd m (Fin False 1) else m)
                    (if 60 \<le> sint (k + 1) then 0 else k + 1)
                    (animClock (j + 1)) (fadd a crystalStep))"
  using advances_idle_step [OF assms, of 0] by simp

lemmas idle_run = advances_idle_numeral advances_idle_one crystalStep_value twoPi_value f64_eval
  numeral_2_eq_2 [symmetric]

lemma advances_add:
  "advances (m + n) g = (case advances m g of Inl e \<Rightarrow> Inl e | Inr g' \<Rightarrow> advances n g')"
  by (induction m arbitrary: g) (auto split: sum.splits)

lemma advances_reachable:
  assumes "advances n g = Inr g'" and "reachable g"
  shows "reachable g'"
  using assms
proof (induction n arbitrary: g)
  case 0
  then show ?case by simp
next
  case (Suc n)
  from Suc.prems(1) obtain g1 where g1: "advance g = Inr g1" and rest: "advances n g1 = Inr g'"
    by (auto split: sum.splits)
  from Suc.prems(2) g1 have "reachable g1"
    by (rule reach_advance)
  with rest show ?case
    by (rule Suc.IH)
qed

lemma rotate_skip:
  assumes "j < length (generators g)" and "\<not> 0 < sint (level (generators g ! j))"
  shows "rotate j g = Inr g"
  using assms by (simp add: rotate_def)

lemma first_minute:
  "advances 60 NewGame =
     Inr (idleState (Fin False 1) 0 (animClock 60)
            (Fin False (7074237752028435 / 2251799813685248)))"
proof -
  have start: "NewGame = idleState (Fin False 0) 0 (animClock 0) (Fin False 0)"
    by (simp add: NewGame_idleState animClock_simps)
  show ?thesis
    by (subst start) (simp add: idle_run del: advances.simps)
qed

lemma second_minute:
  "advances 59 (idleState (Fin False 1) 0 (animClock 60)
            (Fin False (7074237752028435 / 2251799813685248))) =
     Inr (idleState (Fin False 1) 59 (animClock 119)
            (Fin False (7015285770761545 / 1125899906842624)))"
  by (simp add: idle_run del: advances.simps)

lemma crossing_frame:
  "advance (idleState (Fin False 1) 59 (animClock 119)
            (Fin False (7015285770761545 / 1125899906842624))) =
     Inr afterFirstRevolution"
proof -
  let ?a = "Fin False (7015285770761545 / 1125899906842624)"
  have n: "fadd ?a crystalStep = Fin False (7074237752028449 / 1125899906842624)"
    by (simp add: crystalStep_value f64_eval)
  have old: "flt ?a twoPi"
    by (simp add: twoPi_value sval_def)
  have new: "fge (Fin False (7074237752028449 / 1125899906842624)) twoPi"
    by (simp add: twoPi_value sval_def fge_def)
  have w: "fsub (Fin False (7074237752028449 / 1125899906842624)) twoPi
      = Fin False (9 / 1125899906842624)"
    by (simp add: twoPi_value fsub_def f64_eval)
  have m: "fadd (Fin False 1) (lit (1 / 100)) = Fin False (4548635623644201 / 4503599627370496)"
    by (simp add: lit_hundredth f64_eval)
  have two: "fadd (Fin False 1) (Fin False 1) = Fin False 2"
    by (simp add: f64_eval)
  let ?s = "idleState (Fin False 2) 0 (animClock 120) ?a"
  let ?s1 = "(idleState (Fin False 2) 0 (animClock 120) (Fin False (9 / 1125899906842624)))
            \<lparr>generators := initialGenerators
               [0 := (initialGenerators ! 0)
                  \<lparr>manaMultiplier := Fin False (4548635623644201 / 4503599627370496)\<rparr>]\<rparr>"
  have clock: "fadd (animClock 119) (lit (16 / 1000)) = animClock 120"
    using animClock_simps(2) [of 119] by simp
  have pre: "accrue (animate (idleState (Fin False 1) 59 (animClock 119) ?a)) = ?s"
  proof -
    have t: "60 \<le> sint (59 + 1 :: 64 word)"
      by simp
    show ?thesis
      by (simp only: animate_idleState accrue_idleState clock t if_True two)
  qed
  have sg: "spinGenerator (initialGenerators ! 0) ?a =
      (initialGenerators ! 0)\<lparr>manaMultiplier := Fin False (4548635623644201 / 4503599627370496)\<rparr>"
    using old new
    by (simp add: spinGenerator_def initial_levels crystalStep_def [symmetric] n)
       (simp add: initialGenerators_def lit_1 m)
  have sa: "spinAngle (initialGenerators ! 0) ?a = Fin False (9 / 1125899906842624)"
    using new by (simp add: spinAngle_def initial_levels crystalStep_def [symmetric] n w)
  have upd: "(idleState m k t a)\<lparr>generators := gs,
        rotationAngles := [a', Fin False 0, Fin False 0, Fin False 0]\<rparr>
      = (idleState m k t a')\<lparr>generators := gs\<rparr>" for m k t a a' gs
    by (simp add: idleState_def lit_0)
  have r0: "rotate 0 ?s = Inr ?s1"
    by (subst rotate_eq)
       (simp_all add: idleState_fields initial_levels sg sa upd)
  have r: "rotate j ?s1 = Inr ?s1" if "j = Suc 0 \<or> j = 2 \<or> j = 3" for j
    using that by (intro rotate_skip) (auto simp: idleState_fields initialGenerators_def)
  have upt4: "[0..<4] = [0, Suc 0, 2, 3]"
    by (simp add: upt_rec)
  have "rotateAll [0..<length (generators ?s)] ?s = Inr ?s1"
    by (simp add: idleState_fields initial_levels upt4 r0 r)
  then show ?thesis
    by (simp add: advance_def Let_def pre afterFirstRevolution_def)
qed

lemma advances_one: "advances (Suc 0) g = advance g"
  by (cases "advance g") simp_all

lemma two_minutes: "advances 120 NewGame = Inr afterFirstRevolution"
proof -
  have "advances 120 NewGame = advances (60 + (59 + 1)) NewGame"
    by simp
  also have "\<dots> = Inr afterFirstRevolution"
    unfolding advances_add
    by (simp add: first_minute second_minute advances_one crossing_frame del: advances.simps)
  finally show ?thesis .
qed

lemma before_crossing:
  "advances 119 NewGame = Inr (idleState (Fin False 1) 59 (animClock 119)
            (Fin False (7015285770761545 / 1125899906842624)))"
proof -
  have "advances 119 NewGame = advances (60 + 59) NewGame"
    by simp
  also have "\<dots> = Inr (idleState (Fin False 1) 59 (animClock 119)
            (Fin False (7015285770761545 / 1125899906842624)))"
    unfolding advances_add
    by (simp add: first_minute second_minute del: advances.simps)
  finally show ?thesis .
qed

lemma afterFirstRevolution_fields:
  "totalMultiplier afterFirstRevolution = Fin False 1"
  "multiplierProduct (generators afterFirstRevolution)
     = Fin False (4548635623644201 / 4503599627370496)"
  "lit (101 / 100) = Fin False (4548635623644201 / 4503599627370496)"
  by (simp_all add: afterFirstRevolution_def idleState_fields multiplierProduct_def
      initialGenerators_def lit_def f64_eval)

section \<open>The cached product\<close>

lemma purchase_beyond_factors:
  assumes "i < length (generators g)" and "\<not> i < 4"
    and "fge (mana g) (cost (generators g ! i))" and "sint (level (generators g ! i)) < 100"
  shows "purchase i g = Inl IndexOutOfRange"
  using assms by (simp add: purchase_def Let_def scalingFactor_nth(2))

lemma purchase_eligible_product:
  assumes "i < length (generators g)" and "i < 4"
    and "fge (mana g) (cost (generators g ! i))" and "sint (level (generators g ! i)) < 100"
  shows "\<exists>g'. purchase i g = Inr g' \<and> totalMultiplier g' = multiplierProduct (generators g')"
proof -
  have "multiplierProduct ((generators g)
      [i := (generators g ! i)
         \<lparr>level := level (generators g ! i) + 1,
          cost := fmul (cost (generators g ! i)) (scalingFactor ! i)\<rparr>])
      = multiplierProduct (generators g)"
    by (rule multiplierProduct_cong) (simp add: map_manaMultiplier_update)
  then show ?thesis
    by (simp add: purchase_eq [OF assms])
qed

lemma purchase_total_multiplier:
  assumes "purchase i g = Inr g'"
    and "totalMultiplier g = multiplierProduct (generators g) \<or>
         (fge (mana g) (cost (generators g ! i)) \<and> sint (level (generators g ! i)) < 100)"
  shows "totalMultiplier g' = multiplierProduct (generators g')"
proof (cases "fge (mana g) (cost (generators g ! i)) \<and> sint (level (generators g ! i)) < 100")
  case True
  have len: "i < length (generators g)"
    using assms(1) by (rule purchase_cases(1))
  have i4: "i < 4"
    using purchase_beyond_factors [OF len] True assms(1) by auto
  from purchase_eligible_product [OF len i4] True assms(1) show ?thesis
    by auto
next
  case False
  then have "g' = g"
    using purchase_cases(2) [OF assms(1)] by blast
  with False assms(2) show ?thesis
    by blast
qed

lemma advance_total_multiplier:
  assumes "advance g = Inr h"
    and "60 \<le> sint (tickCounter g + 1) \<or> totalMultiplier g = multiplierProduct (generators g)"
  shows "totalMultiplier h = multiplierProduct (generators g)"
  using assms by (auto simp: advance_frame accrue_fields)

section \<open>The displayed rate\<close>

lemma forgetManaPerSec_update [simp]:
  "forgetManaPerSec (g\<lparr>manaPerSec := v\<rparr>) = forgetManaPerSec g"
  by (simp add: forgetManaPerSec_def)

lemma rotate_manaPerSec:
  "rotate i (g\<lparr>manaPerSec := v\<rparr>) = map_sum id (\<lambda>h. h\<lparr>manaPerSec := v\<rparr>) (rotate i g)"
  by (simp add: rotate_def Let_def)

lemma rotateAll_manaPerSec:
  "rotateAll ks (g\<lparr>manaPerSec := v\<rparr>) = map_sum id (\<lambda>h. h\<lparr>manaPerSec := v\<rparr>) (rotateAll ks g)"
proof (induction ks arbitrary: g)
  case Nil
  then show ?case by simp
next
  case (Cons k ks)
  show ?case
    by (cases "rotate k g") (simp_all add: rotate_manaPerSec Cons.IH)
qed

lemma animate_manaPerSec:
  "animate (g\<lparr>manaPerSec := v\<rparr>) = (animate g)\<lparr>manaPerSec := v\<rparr>"
  by (simp add: animate_def Let_def)

lemma accrue_manaPerSec:
  "accrue (g\<lparr>manaPerSec := v\<rparr>) =
     (accrue g)\<lparr>manaPerSec :=
        (if 60 \<le> sint (tickCounter g + 1)
         then int64_of_f64 (fadd (fmul (multiplierProduct (generators g)) (lit 100)) (lit (1 / 2)))
         else v)\<rparr>"
  by (simp add: accrue_def Let_def calculateManaPerSec_def)

lemma advance_manaPerSec:
  "map_sum id forgetManaPerSec (advance (g\<lparr>manaPerSec := v\<rparr>))
     = map_sum id forgetManaPerSec (advance g)"
proof -
  obtain w where w: "accrue ((animate g)\<lparr>manaPerSec := v\<rparr>) = (accrue (animate g))\<lparr>manaPerSec := w\<rparr>"
    using accrue_manaPerSec by blast
  have "advance (g\<lparr>manaPerSec := v\<rparr>)
      = map_sum id (\<lambda>h. h\<lparr>manaPerSec := w\<rparr>) (advance g)"
    by (simp add: advance_def Let_def animate_manaPerSec w rotateAll_manaPerSec)
  then show ?thesis
    by (cases "advance g") simp_all
qed

lemma purchase_manaPerSec:
  "map_sum id forgetManaPerSec (purchase i (g\<lparr>manaPerSec := v\<rparr>))
     = map_sum id forgetManaPerSec (purchase i g)"
  by (simp add: purchase_def Let_def calculateManaPerSec_def forgetManaPerSec_def)

section \<open>Bounds on rounding\<close>

text \<open>
  A magnitude up to \<open>2 ^ 1000\<close> rounds to a finite value of the same sign, at most half a
  unit in the last place away: within the fraction \<open>2 ^ (-53)\<close> of the magnitude, or
  \<open>2 ^ (-1075)\<close> among the subnormals.
\<close>

lemma pow2_powi: "pow2 e = 2 powi e"
  by (simp add: pow2_def power_int_def field_simps)

lemma pow2_pos: "0 < pow2 e"
  by (simp add: pow2_powi)

lemma pow2_add: "pow2 (a + b) = pow2 a * pow2 b"
  by (simp add: pow2_powi power_int_add)

lemma pow2_numerals:
  "pow2 0 = 1" "pow2 1 = 2" "pow2 (- 1) = 1 / 2" "pow2 (- 52) = 1 / 2 ^ 52"
  "pow2 (- 1074) = 1 / 2 ^ 1074"
  by (simp_all add: pow2_def)

lemma ilog2_lower: "0 < x \<Longrightarrow> pow2 (ilog2 x) \<le> x"
proof (induction x rule: ilog2.induct)
  case (1 x)
  show ?case
  proof (cases "2 \<le> x")
    case True
    then have "pow2 (ilog2 (x / 2)) \<le> x / 2"
      using "1.IH"(1) by simp
    moreover have "ilog2 x = ilog2 (x / 2) + 1"
      using True by (rule ilog2_ge2)
    ultimately show ?thesis
      by (simp add: pow2_add pow2_numerals)
  next
    case False
    show ?thesis
    proof (cases "x < 1")
      case True
      with False "1.prems" have "pow2 (ilog2 (x * 2)) \<le> x * 2"
        using "1.IH"(2) by simp
      moreover have "ilog2 x = ilog2 (x * 2) + (- 1)"
        using True "1.prems" by (simp add: ilog2_lt1)
      ultimately show ?thesis
        by (simp only: pow2_add pow2_numerals)
    next
      case b: False
      with False have "ilog2 x = 0"
        by (intro ilog2_mid) simp_all
      with b show ?thesis
        by (simp add: pow2_numerals)
    qed
  qed
qed

lemma ulp_of_bound:
  assumes "0 < a"
  shows "0 < ulp_of a" and "ulp_of a \<le> a / 2 ^ 52 + 1 / 2 ^ 1074"
proof -
  show "0 < ulp_of a"
    by (simp add: ulp_of_def pow2_pos)
  have "pow2 (ilog2 a - 52) = pow2 (ilog2 a) * pow2 (- 52)"
    using pow2_add [of "ilog2 a" "- 52"] by simp
  also have "\<dots> \<le> a / 2 ^ 52"
    using ilog2_lower [OF assms] by (simp add: pow2_numerals field_simps)
  finally have n: "pow2 (ilog2 a - 52) \<le> a / 2 ^ 52" .
  show "ulp_of a \<le> a / 2 ^ 52 + 1 / 2 ^ 1074"
  proof (cases "ilog2 a - 52 \<le> - 1074")
    case True
    then have "ulp_of a = 1 / 2 ^ 1074"
      by (simp add: ulp_of_def max_def pow2_numerals)
    then show ?thesis
      using assms by simp
  next
    case False
    then have "ulp_of a = pow2 (ilog2 a - 52)"
      by (simp add: ulp_of_def max_def)
    then show ?thesis
      using n by simp
  qed
qed

lemma round_half_even_bounds:
  shows "of_int (round_half_even y) \<le> y + 1 / 2"
    and "y - 1 / 2 \<le> of_int (round_half_even y)"
    and "0 \<le> y \<Longrightarrow> 0 \<le> round_half_even y"
proof -
  define z where "z = \<lfloor>y\<rfloor>"
  have f: "of_int z \<le> y" "y < of_int z + 1"
    unfolding z_def by linarith+
  have r: "round_half_even y =
     (if y - of_int z < 1 / 2 then z
      else if 1 / 2 < y - of_int z then z + 1
      else if even z then z else z + 1)"
    by (simp add: round_half_even_def Let_def z_def)
  show "of_int (round_half_even y) \<le> y + 1 / 2"
    unfolding r using f by (simp split: if_splits)
  show "y - 1 / 2 \<le> of_int (round_half_even y)"
    unfolding r using f by (simp split: if_splits)
  show "0 \<le> round_half_even y" if "0 \<le> y"
  proof -
    have "0 \<le> z"
      using that by (simp add: z_def)
    then show ?thesis
      unfolding r by simp
  qed
qed


lemma round_to_bounds:
  assumes "0 < a" and "a \<le> 2 ^ 1000"
  shows "\<exists>v. round_to s a = Fin s v \<and> 0 \<le> v \<and>
             v \<le> a + (a / 2 ^ 53 + 1 / 2 ^ 1075) \<and> a - (a / 2 ^ 53 + 1 / 2 ^ 1075) \<le> v"
proof -
  define u where "u = ulp_of a"
  define n where "n = round_half_even (a / u)"
  define v :: rat where "v = of_int n * u"
  have u: "0 < u" "u \<le> a / 2 ^ 52 + 1 / 2 ^ 1074"
    unfolding u_def using ulp_of_bound [OF assms(1)] by simp_all
  have n: "of_int n \<le> a / u + 1 / 2" "a / u - 1 / 2 \<le> of_int n" "0 \<le> n"
    unfolding n_def using round_half_even_bounds [of "a / u"] assms(1) u(1) by simp_all
  have e1: "(a / u + 1 / 2) * u = a + u / 2" and e2: "(a / u - 1 / 2) * u = a - u / 2"
    using u(1) by (simp_all add: distrib_right left_diff_distrib)
  have "of_int n * u \<le> (a / u + 1 / 2) * u"
    using n(1) u(1) by (intro mult_right_mono) simp_all
  then have hi: "v \<le> a + u / 2"
    by (simp only: v_def e1)
  have "(a / u - 1 / 2) * u \<le> of_int n * u"
    using n(2) u(1) by (intro mult_right_mono) simp_all
  then have lo: "a - u / 2 \<le> v"
    by (simp only: v_def e2)
  have nonneg: "0 \<le> v"
    using n(3) u(1) by (simp add: v_def)
  have half: "u / 2 \<le> a / 2 ^ 53 + 1 / 2 ^ 1075"
    using u(2) by simp
  have "v \<le> 2 ^ 1000 + (2 ^ 1000 / 2 ^ 53 + 1 / 2 ^ 1075)"
    using hi half assms(2) by (simp add: field_simps)
  also have "\<dots> < (2 :: rat) ^ 1024"
    by simp
  finally have fin: "\<not> 2 ^ 1024 \<le> v"
    by simp
  have "round_to s a = Fin s v"
    using assms(1) fin by (simp add: round_to_def Let_def u_def n_def v_def)
  with nonneg hi lo half show ?thesis
    by (intro exI [of _ v]) simp
qed

lemma round_to_zero: "round_to s 0 = Fin s 0"
  by (simp add: round_to_def)

lemma round_to_near:
  assumes "0 \<le> a" and "a \<le> 2 ^ 1000"
  shows "\<exists>v. round_to s a = Fin s v \<and> 0 \<le> v \<and>
             v \<le> a + a / 2 ^ 20 + 1 / 2 ^ 20 \<and> a - a / 2 ^ 20 - 1 / 2 ^ 20 \<le> v"
proof (cases "a = 0")
  case True
  then show ?thesis
    by (simp add: round_to_zero)
next
  case False
  with assms(1) have pos: "0 < a"
    by simp
  obtain v where v: "round_to s a = Fin s v" "0 \<le> v"
      "v \<le> a + (a / 2 ^ 53 + 1 / 2 ^ 1075)" "a - (a / 2 ^ 53 + 1 / 2 ^ 1075) \<le> v"
    using round_to_bounds [OF pos assms(2)] by blast
  have "a / 2 ^ 53 \<le> a / 2 ^ 20"
    using pos by (intro divide_left_mono) simp_all
  moreover have "(1 :: rat) / 2 ^ 1075 \<le> 1 / 2 ^ 20"
    by simp
  ultimately show ?thesis
    using v by (intro exI [of _ v]) simp
qed

section \<open>An invariant of the reachable states\<close>

lemma round_to_small:
  assumes "0 \<le> a" and "a \<le> b" and "b \<le> 1024"
  shows "\<exists>v. round_to s a = Fin s v \<and> 0 \<le> v \<and> v \<le> b + 1 / 512"
proof -
  have "a \<le> 2 ^ 1000"
    using assms(2,3) by simp
  then obtain v where v: "round_to s a = Fin s v" "0 \<le> v" "v \<le> a + a / 2 ^ 20 + 1 / 2 ^ 20"
    using round_to_near [OF assms(1)] by blast
  have "a / 2 ^ 20 \<le> 1024 / 2 ^ 20"
    using assms(2,3) by (intro divide_right_mono) simp_all
  then have "v \<le> b + 1 / 512"
    using v(3) assms(2) by simp
  with v(1,2) show ?thesis
    by blast
qed

lemma generatorOK_D:
  assumes "generatorOK generator"
  shows "0 \<le> sint (level generator)" and "sint (level generator) \<le> 100"
    and "\<exists>c. cost generator = Fin False c \<and> 0 \<le> c \<and> c \<le> 2 ^ (10 + nat (sint (level generator)))"
    and "\<exists>q. speedPerLevel generator = Fin False q \<and> 0 \<le> q \<and>
           q \<le> 3602879701896397 / 36028797018963968"
  using assms by (auto simp: generatorOK_def split: f64.splits)

lemma angleOK_D:
  assumes "angleOK a"
  shows "\<exists>s x. a = Fin s x \<and> 0 \<le> sval s x \<and> sval s x < 884279719003555 / 140737488355328"
  using assms
  by (cases a) (auto simp: angleOK_def lit_0 twoPi_value sval_def split: if_splits)

lemma angleOK_I:
  assumes "0 \<le> v" and "v < 884279719003555 / 140737488355328"
  shows "angleOK (Fin False v)"
  using assms by (simp add: angleOK_def lit_0 twoPi_value sval_def)

lemma rotationSpeed_bound:
  assumes "generatorOK generator" and "0 < sint (level generator)"
  shows "\<exists>r. rotationSpeed generator = Fin False r \<and> 0 \<le> r \<and> r \<le> 2"
proof -
  define L where "L = sint (level generator)"
  have L: "0 < L" "L \<le> 100"
    using assms generatorOK_D(2) by (simp_all add: L_def)
  obtain q where q: "speedPerLevel generator = Fin False q" "0 \<le> q" "q \<le> 1 / 8"
    using generatorOK_D(4) [OF assms(1)] by fastforce
  have "f64_of_int L = round_to False (of_int L)"
    using L(1) by (simp add: f64_of_int_def rnd_def)
  moreover obtain v0 where v0: "round_to False (of_int L) = Fin False v0" "0 \<le> v0" "v0 \<le> 100 + 1 / 512"
    using round_to_small [of "of_int L" 100 False] L by auto
  ultimately have c0: "f64_of_int L = Fin False v0"
    by simp
  have "q * v0 \<le> (1 / 8) * (100 + 1 / 512)"
    using q v0 by (intro mult_mono) simp_all
  then have "q * v0 \<le> 13"
    by simp
  moreover have "0 \<le> q * v0"
    using q v0 by simp
  ultimately obtain t1 where t1: "round_to False (q * v0) = Fin False t1" "0 \<le> t1" "t1 \<le> 13 + 1 / 512"
    using round_to_small [of "q * v0" 13 False] by auto
  obtain t2 where t2: "round_to False (t1 * 2) = Fin False t2" "0 \<le> t2" "t2 \<le> 27 + 1 / 512"
    using round_to_small [of "t1 * 2" 27 False] t1 by auto
  define p :: rat where "p = 884279719003555 / 281474976710656"
  have p: "lit math_Pi = Fin False p" "0 \<le> p" "p \<le> 22 / 7"
    by (simp_all add: p_def lit_Pi)
  have "t2 * p \<le> (27 + 1 / 512) * (22 / 7)"
    using t2 p by (intro mult_mono) simp_all
  then have "t2 * p \<le> 85"
    by simp
  moreover have "0 \<le> t2 * p"
    using t2 p by simp
  ultimately obtain t3 where t3: "round_to False (t2 * p) = Fin False t3"
      "0 \<le> t3" "t3 \<le> 85 + 1 / 512"
    using round_to_small [of "t2 * p" 85 False] by auto
  obtain t4 where t4: "round_to False (t3 / 60) = Fin False t4" "0 \<le> t4" "t4 \<le> 3 / 2 + 1 / 512"
    using round_to_small [of "t3 / 60" "3 / 2" False] t3 by auto
  have "rotationSpeed generator = Fin False t4"
    by (simp add: rotationSpeed_def Let_def L_def [symmetric] q c0 t1 lit_2 t2 p(1) t3 lit_60 t4)
  with t4 show ?thesis
    by (intro exI [of _ t4]) simp
qed


lemma sval_simps:
  "sval False a = a" "sval True a = - a"
  by (simp_all add: sval_def)

lemma fadd_Fin:
  "fadd (Fin s a) (Fin t b) =
     (if sval s a + sval t b = 0 then Fin (s \<and> t) 0 else rnd (sval s a + sval t b))"
  by (simp add: Let_def)

lemma fsub_Fin:
  "fsub (Fin s a) (Fin t b) =
     (if sval s a - sval t b = 0 then Fin (s \<and> \<not> t) 0 else rnd (sval s a - sval t b))"
  by (simp add: fsub_def Let_def sval_def)

lemma generatorOK_iff:
  "generatorOK generator \<longleftrightarrow>
     0 \<le> sint (level generator) \<and> sint (level generator) \<le> 100 \<and>
     (\<exists>c. cost generator = Fin False c \<and> 0 \<le> c \<and>
          c \<le> 2 ^ (10 + nat (sint (level generator)))) \<and>
     (\<exists>q. speedPerLevel generator = Fin False q \<and> 0 \<le> q \<and>
          q \<le> 3602879701896397 / 36028797018963968)"
  by (auto simp: generatorOK_def split: f64.splits)

lemma rnd_pos:
  assumes "0 < x"
  shows "rnd x = round_to False x"
  using assms by (simp add: rnd_def)

lemma spinAngle_ok:
  assumes "generatorOK generator" and "angleOK a"
  shows "angleOK (spinAngle generator a)"
proof (cases "0 < sint (level generator)")
  case False
  with assms(2) show ?thesis
    by (simp add: spinAngle_def)
next
  case True
  define P :: rat where "P = 884279719003555 / 140737488355328"
  have P: "twoPi = Fin False P" "6 \<le> P" "P \<le> 7"
    by (simp_all add: P_def twoPi_value)
  obtain r where r: "rotationSpeed generator = Fin False r" "0 \<le> r" "r \<le> 2"
    using rotationSpeed_bound [OF assms(1) True] by blast
  obtain s x where a: "a = Fin s x" "0 \<le> sval s x" "sval s x < P"
    using angleOK_D [OF assms(2)] unfolding P_def by blast
  define y where "y = sval s x + r"
  have y: "0 \<le> y" "y \<le> 9"
    using a r P by (simp_all add: y_def)
  have ok: "angleOK (Fin False v)" if "0 \<le> v" "v < P" for v
    using that unfolding P_def by (rule angleOK_I)
  have "\<exists>v. fadd a (rotationSpeed generator) = Fin False v \<and> 0 \<le> v \<and> v \<le> 9 + 1 / 512"
  proof (cases "y = 0")
    case True
    then show ?thesis
      unfolding a r fadd_Fin sval_simps y_def [symmetric] by simp
  next
    case False
    with y(1) have "0 < y"
      by simp
    then have "fadd a (rotationSpeed generator) = round_to False y"
      unfolding a r fadd_Fin sval_simps y_def [symmetric] by (simp add: rnd_pos)
    then show ?thesis
      using round_to_small [of y 9 False] y by auto
  qed
  then obtain v where v: "fadd a (rotationSpeed generator) = Fin False v" "0 \<le> v" "v \<le> 9 + 1 / 512"
    by blast
  show ?thesis
  proof (cases "P \<le> v")
    case False
    then have "angleOK (Fin False v)"
      using v(2) by (intro ok) simp_all
    moreover have "\<not> fge (Fin False v) twoPi"
      using False by (simp add: fge_def P(1) sval_def)
    ultimately show ?thesis
      using True by (simp add: spinAngle_def v(1))
  next
    case big: True
    define w where "w = v - P"
    have w: "0 \<le> w" "w \<le> 4"
      using big v(3) P by (simp_all add: w_def)
    have "\<exists>u. fsub (Fin False v) twoPi = Fin False u \<and> 0 \<le> u \<and> u \<le> 4 + 1 / 512"
    proof (cases "w = 0")
      case True
      then show ?thesis
        unfolding P(1) fsub_Fin sval_simps w_def [symmetric] by simp
    next
      case False
      with w(1) have "0 < w"
        by simp
      then have "fsub (Fin False v) twoPi = round_to False w"
        unfolding P(1) fsub_Fin sval_simps w_def [symmetric] by (simp add: rnd_pos)
      then show ?thesis
        using round_to_small [of w 4 False] w by auto
    qed
    then obtain u where u: "fsub (Fin False v) twoPi = Fin False u" "0 \<le> u" "u \<le> 4 + 1 / 512"
      by blast
    have "angleOK (Fin False u)"
      using u(2,3) P(2) by (intro ok) simp_all
    moreover have "fge (Fin False v) twoPi"
      using big by (simp add: fge_def P(1) sval_def)
    ultimately show ?thesis
      using True by (simp add: spinAngle_def v(1) u(1))
  qed
qed

lemma spinGenerator_ok:
  assumes "generatorOK generator"
  shows "generatorOK (spinGenerator generator a)"
  using assms by (simp add: spinGenerator_def generatorOK_iff)

lemma round_to_nonneg:
  assumes "0 \<le> a"
  shows "fle (lit 0) (round_to False a)"
proof (cases "a = 0")
  case True
  then show ?thesis
    by (simp add: round_to_zero lit_0 sval_def)
next
  case False
  with assms have pos: "0 < a"
    by simp
  have "0 \<le> round_half_even (a / ulp_of a)"
    using pos ulp_of_bound(1) [OF pos] by (intro round_half_even_bounds(3)) simp
  then have "0 \<le> of_int (round_half_even (a / ulp_of a)) * ulp_of a"
    using ulp_of_bound(1) [OF pos] by simp
  then show ?thesis
    using False by (simp add: round_to_def Let_def lit_0 sval_def)
qed

lemma fadd_nonneg:
  assumes "fle (lit 0) m" and "fgt t (lit 0)"
  shows "fle (lit 0) (fadd m t)"
proof (cases m)
  case NaN
  with assms(1) show ?thesis
    by (simp add: lit_0)
next
  case (Inf s)
  with assms show ?thesis
    by (cases t) (auto simp: lit_0 fgt_def)
next
  case m: (Fin s a)
  show ?thesis
  proof (cases t)
    case NaN
    with assms(2) show ?thesis
      by (simp add: fgt_def lit_0)
  next
    case (Inf s')
    with assms m show ?thesis
      by (auto simp: lit_0 fgt_def)
  next
    case t: (Fin s' b)
    have "0 < sval s a + sval s' b"
      using assms by (simp add: m t lit_0 fgt_def sval_simps)
    then show ?thesis
      using round_to_nonneg [of "sval s a + sval s' b"]
      unfolding m t fadd_Fin by (simp add: rnd_pos)
  qed
qed

lemma fsub_nonneg:
  assumes "fle (lit 0) m" and "fge m (Fin False c)"
  shows "fle (lit 0) (fsub m (Fin False c))"
proof (cases m)
  case NaN
  with assms(1) show ?thesis
    by (simp add: lit_0)
next
  case (Inf s)
  with assms show ?thesis
    by (auto simp: lit_0 fge_def fsub_def)
next
  case m: (Fin s a)
  have d: "0 \<le> sval s a - c"
    using assms(2) by (simp add: m fge_def sval_simps)
  have e: "fsub m (Fin False c) =
      (if sval s a - c = 0 then Fin (s \<and> True) 0 else rnd (sval s a - c))"
    unfolding m fsub_Fin sval_simps by simp
  show ?thesis
  proof (cases "sval s a - c = 0")
    case True
    then show ?thesis
      by (simp add: e lit_0 sval_def)
  next
    case False
    with d have "0 < sval s a - c"
      by simp
    then show ?thesis
      using round_to_nonneg [of "sval s a - c"]
      by (simp add: e rnd_pos)
  qed
qed


lemma scalingFactor_bound:
  assumes "i < 4"
  shows "\<exists>f. scalingFactor ! i = Fin False f \<and> 0 \<le> f \<and> f \<le> 5 / 4"
proof (cases "i = 0")
  case True
  have "lit (115 / 100) = Fin False (2589569785738035 / 2251799813685248)"
    by (simp add: lit_def f64_eval)
  then have "scalingFactor ! i = Fin False (2589569785738035 / 2251799813685248)"
    using True by (simp add: scalingFactor_nth(1))
  then show ?thesis
    by (intro exI [of _ "2589569785738035 / 2251799813685248"]) simp
next
  case False
  have "lit (12 / 10) = Fin False (5404319552844595 / 4503599627370496)"
    by (simp add: lit_def f64_eval)
  then have "scalingFactor ! i = Fin False (5404319552844595 / 4503599627370496)"
    using False assms by (simp add: scalingFactor_nth(1))
  then show ?thesis
    by (intro exI [of _ "5404319552844595 / 4503599627370496"]) simp
qed

lemma cost_growth_ok:
  assumes "0 \<le> c" and "c \<le> 2 ^ (10 + n)" and "n < 100" and "i < 4"
  shows "\<exists>c'. fmul (Fin False c) (scalingFactor ! i) = Fin False c' \<and> 0 \<le> c' \<and>
              c' \<le> 2 ^ (10 + (n + 1))"
proof -
  obtain f where f: "scalingFactor ! i = Fin False f" "0 \<le> f" "f \<le> 5 / 4"
    using scalingFactor_bound [OF assms(4)] by blast
  define B :: rat where "B = 2 ^ (10 + n)"
  have B1: "1 \<le> B"
    by (simp add: B_def)
  have "(2 :: rat) ^ (10 + n) \<le> 2 ^ 110"
    using assms(3) by (intro power_increasing) simp_all
  then have B2: "B \<le> 2 ^ 110"
    by (simp add: B_def)
  have cf: "c * f \<le> B * (5 / 4)"
    using assms(1,2) f by (intro mult_mono) (simp_all add: B_def)
  have cf0: "0 \<le> c * f"
    using assms(1) f by simp
  have "B * (5 / 4) \<le> 2 ^ 110 * (5 / 4)"
    using B2 by (intro mult_right_mono) simp_all
  also have "\<dots> \<le> (2 :: rat) ^ 1000"
    by simp
  finally have "c * f \<le> 2 ^ 1000"
    using cf by simp
  then obtain v where v: "round_to False (c * f) = Fin False v" "0 \<le> v"
      "v \<le> c * f + c * f / 2 ^ 20 + 1 / 2 ^ 20"
    using round_to_near [OF cf0] by blast
  have "c * f / 2 ^ 20 \<le> B * (5 / 4) / 2 ^ 20"
    using cf by (intro divide_right_mono) simp_all
  then have "v \<le> B * (5 / 4) + B * (5 / 4) / 2 ^ 20 + 1 / 2 ^ 20"
    using v(3) cf by simp
  also have "\<dots> \<le> B * 2"
    using B1 by simp
  also have "\<dots> = 2 ^ (10 + (n + 1))"
    by (simp only: B_def add.assoc [symmetric] power_add power_one_right)
  finally have "v \<le> 2 ^ (10 + (n + 1))" .
  then show ?thesis
    using v(1,2) by (simp add: f(1))
qed

lemma purchase_ok:
  assumes "stateOK g" and "purchase i g = Inr g'"
  shows "stateOK g'"
proof (cases "g' = g")
  case True
  with assms(1) show ?thesis
    by simp
next
  case False
  have len: "i < length (generators g)"
    using assms(2) by (rule purchase_cases(1))
  have el: "i < 4" "fge (mana g) (cost (generators g ! i))" "sint (level (generators g ! i)) < 100"
    using purchase_cases(2) [OF assms(2) False] by simp_all
  let ?gen = "generators g ! i"
  have gens: "list_all generatorOK (generators g)" and angles: "list_all angleOK (rotationAngles g)"
    and mana: "fle (lit 0) (mana g)"
    using assms(1) by (simp_all add: stateOK_def)
  have ok: "generatorOK ?gen"
    using gens len by (simp add: list_all_length)
  obtain c where c: "cost ?gen = Fin False c" "0 \<le> c" "c \<le> 2 ^ (10 + nat (sint (level ?gen)))"
    using generatorOK_D(3) [OF ok] by blast
  have lv: "0 \<le> sint (level ?gen)" "sint (level ?gen + 1) = sint (level ?gen) + 1"
    using generatorOK_D(1) [OF ok] el(3) by (simp_all add: sint_succ)
  have n: "nat (sint (level ?gen)) < 100"
    using el(3) lv(1) by simp
  obtain c' where c': "fmul (cost ?gen) (scalingFactor ! i) = Fin False c'" "0 \<le> c'"
      "c' \<le> 2 ^ (10 + (nat (sint (level ?gen)) + 1))"
    using cost_growth_ok [OF c(2,3) n el(1)] c(1) by auto
  define gen' where "gen' = ?gen\<lparr>level := level ?gen + 1,
      cost := fmul (cost ?gen) (scalingFactor ! i)\<rparr>"
  have "nat (sint (level ?gen) + 1) = nat (sint (level ?gen)) + 1"
    using lv(1) by simp
  then have ok': "generatorOK gen'"
    using ok c' lv el(3) by (simp add: generatorOK_iff gen'_def)
  have eq: "g' = g\<lparr>mana := fsub (mana g) (cost ?gen),
            totalMultiplier := multiplierProduct (generators g),
            manaPerSec := int64_of_f64
              (fadd (fmul (multiplierProduct (generators g)) (lit 100)) (lit (1 / 2))),
            generators := (generators g)[i := gen']\<rparr>"
    using purchase_eq [OF len el] assms(2) by (simp add: gen'_def)
  have "list_all generatorOK ((generators g)[i := gen'])"
    using gens ok' len by (auto simp: list_all_length nth_list_update)
  moreover have "fle (lit 0) (fsub (mana g) (cost ?gen))"
    using mana el(2) unfolding c(1) by (rule fsub_nonneg)
  ultimately show ?thesis
    using angles by (simp add: eq stateOK_def)
qed


lemma advance_angle_outside:
  assumes "advance g = Inr g'" and "\<not> j < length (generators g)"
  shows "rotationAngles g' ! j = rotationAngles g ! j"
proof -
  let ?h = "accrue (animate g)"
  have h: "generators ?h = generators g" "rotationAngles ?h = rotationAngles g"
    by (simp_all add: accrue_fields animate_frame)
  have r: "rotateAll [0..<length (generators ?h)] ?h = Inr g'"
    using assms(1) by (simp add: advance_def Let_def)
  from rotateAll_effect [OF r distinct_upt]
  have "rotationAngles g' ! j =
      (if j \<in> set [0..<length (generators ?h)]
       then spinAngle (generators ?h ! j) (rotationAngles ?h ! j)
       else rotationAngles ?h ! j)"
    by blast
  then show ?thesis
    using assms(2) by (simp add: h)
qed

lemma advance_ok:
  assumes "stateOK g" and "advance g = Inr g'"
  shows "stateOK g'"
proof -
  note e = advance_effect [OF assms(2)]
  have gens: "list_all generatorOK (generators g)" and angles: "list_all angleOK (rotationAngles g)"
    and mana: "fle (lit 0) (mana g)"
    using assms(1) by (simp_all add: stateOK_def)
  have "generatorOK (generators g' ! j)" if "j < length (generators g')" for j
    using that gens by (simp add: e(2,4) list_all_length spinGenerator_ok)
  then have 1: "list_all generatorOK (generators g')"
    by (simp add: list_all_length)
  have "angleOK (rotationAngles g' ! j)" if j: "j < length (rotationAngles g')" for j
  proof (cases "j < length (generators g)")
    case True
    then have "rotationAngles g' ! j = spinAngle (generators g ! j) (rotationAngles g ! j)"
      by (rule e(5))
    moreover have "generatorOK (generators g ! j)" "angleOK (rotationAngles g ! j)"
      using True j gens angles by (simp_all add: list_all_length e(3))
    ultimately show ?thesis
      by (simp add: spinAngle_ok)
  next
    case False
    then have "rotationAngles g' ! j = rotationAngles g ! j"
      using assms(2) by (intro advance_angle_outside)
    then show ?thesis
      using j angles by (simp add: list_all_length e(3))
  qed
  then have 2: "list_all angleOK (rotationAngles g')"
    by (simp add: list_all_length)
  have "mana g' = mana (accrue g)"
    using assms(2) by (rule advance_frame(1))
  then have 3: "fle (lit 0) (mana g')"
    using mana by (simp add: accrue_fields fadd_nonneg)
  from 1 2 3 show ?thesis
    by (simp add: stateOK_def)
qed

lemma NewGame_ok: "stateOK NewGame"
proof -
  have "lit 50 = Fin False 50" "lit 250 = Fin False 250" "lit 1000 = Fin False 1000"
    "lit (8 / 100) = Fin False (5764607523034235 / 72057594037927936)"
    "lit (5 / 100) = Fin False (3602879701896397 / 72057594037927936)"
    "lit (2 / 100) = Fin False (5764607523034235 / 288230376151711744)"
    by (simp_all add: lit_def f64_eval)
  then have "list_all generatorOK initialGenerators"
    by (simp add: initialGenerators_def generatorOK_def lit_3 lit_tenth)
  moreover have "angleOK (Fin False 0)"
    by (rule angleOK_I) simp_all
  moreover have "fle (lit 0) (Fin False 0)"
    by (simp add: lit_0 sval_def)
  ultimately show ?thesis
    by (simp add: stateOK_def NewGame_fields)
qed


lemma reachable_ok:
  assumes "reachable g"
  shows "stateOK g"
  using assms
proof (induction rule: reachable.induct)
  case reach_new
  show ?case by (rule NewGame_ok)
next
  case (reach_advance g g')
  from reach_advance.IH reach_advance.hyps(2) show ?case
    by (rule advance_ok)
next
  case (reach_purchase g i g')
  from reach_purchase.IH reach_purchase.hyps(2) show ?case
    by (rule purchase_ok)
qed

lemma afterFirstRevolution_reachable: "reachable afterFirstRevolution"
  using two_minutes reach_new by (rule advances_reachable)

section \<open>Purchases, idle generators and the life of the cached product\<close>

lemma multiplierProduct_four:
  assumes "length gs = 4"
  shows "multiplierProduct gs =
     fmul (fmul (fmul (fmul (lit 1) (manaMultiplier (gs ! 0))) (manaMultiplier (gs ! 1)))
                (manaMultiplier (gs ! 2))) (manaMultiplier (gs ! 3))"
proof -
  obtain a b c d where "gs = [a, b, c, d]"
    using assms by (auto simp: length_Suc_conv numeral_eq_Suc)
  then show ?thesis
    by (simp add: multiplierProduct_def)
qed

lemma purchase_frame:
  assumes "purchase j g = Inr g'"
  shows "rotationAngles g' = rotationAngles g"
    and "map manaMultiplier (generators g') = map manaMultiplier (generators g)"
    and "length (generators g') = length (generators g)"
    and "i \<noteq> j \<Longrightarrow> generators g' ! i = generators g ! i"
    and "tickCounter g' = tickCounter g"
proof -
  have len: "j < length (generators g)"
    using assms by (rule purchase_cases(1))
  have "rotationAngles g' = rotationAngles g \<and>
        map manaMultiplier (generators g') = map manaMultiplier (generators g) \<and>
        length (generators g') = length (generators g) \<and>
        (i \<noteq> j \<longrightarrow> generators g' ! i = generators g ! i) \<and>
        tickCounter g' = tickCounter g"
  proof (cases "g' = g")
    case True
    then show ?thesis by simp
  next
    case False
    then have el: "j < 4" "fge (mana g) (cost (generators g ! j))"
        "sint (level (generators g ! j)) < 100"
      using purchase_cases(2) [OF assms] by simp_all
    from purchase_eq [OF len el] assms show ?thesis
      by (auto simp: map_manaMultiplier_update)
  qed
  then show "rotationAngles g' = rotationAngles g"
    and "map manaMultiplier (generators g') = map manaMultiplier (generators g)"
    and "length (generators g') = length (generators g)"
    and "i \<noteq> j \<Longrightarrow> generators g' ! i = generators g ! i"
    and "tickCounter g' = tickCounter g"
    by simp_all
qed

lemma purchase_multiplier:
  assumes "purchase j g = Inr g'"
  shows "manaMultiplier (generators g' ! i) = manaMultiplier (generators g ! i)"
proof (cases "i < length (generators g)")
  case True
  have "map manaMultiplier (generators g') ! i = map manaMultiplier (generators g) ! i"
    by (simp add: purchase_frame(2) [OF assms])
  then show ?thesis
    using True purchase_frame(3) [OF assms] by simp
next
  case False
  have len: "j < length (generators g)"
    using assms by (rule purchase_cases(1))
  with False have "i \<noteq> j"
    by auto
  then show ?thesis
    by (simp add: purchase_frame(4) [OF assms])
qed

lemma scenario_purchase: "purchase 0 scenarioState = Inr scenarioBought"
proof -
  have f: "generators scenarioState = initialGenerators" "mana scenarioState = Fin False 3"
    by (simp_all add: scenarioState_def NewGame_fields lit_3)
  have e: "0 < length (generators scenarioState)" "(0 :: nat) < 4"
    "fge (mana scenarioState) (cost (generators scenarioState ! 0))"
    "sint (level (generators scenarioState ! 0)) < 100"
    by (simp_all add: f initialGenerators_def fge_def sval_def lit_3)
  have c: "cost (initialGenerators ! 0) = Fin False 3" "level (initialGenerators ! 0) = 5"
    by (simp_all add: initialGenerators_def lit_3)
  have sub: "fsub (Fin False 3) (Fin False 3) = Fin False 0"
    by (simp add: fsub_def sval_def)
  have prod: "fmul (Fin False 3) (scalingFactor ! 0)
      = Fin False (7768709357214105 / 2251799813685248)"
    using scenario_cost_value(1) by (simp add: scalingFactor_nth(1) lit_3)
  show ?thesis
    unfolding purchase_eq [OF e]
    by (simp add: f c sub prod multiplierProduct_initial manaPerSec_of_one)
       (simp add: scenarioState_def scenarioBought_def NewGame_fields)
qed

lemma reachable_lengths:
  assumes "reachable g"
  shows "length (generators g) = 4 \<and> length (rotationAngles g) = 4"
  using assms
proof (induction rule: reachable.induct)
  case reach_new
  show ?case
    by (simp add: NewGame_fields initialGenerators_def)
next
  case (reach_advance g g')
  then show ?case
    using advance_effect(2,3) [OF reach_advance.hyps(2)] by simp
next
  case (reach_purchase g i g')
  then show ?case
    using purchase_frame(1,3) [OF reach_purchase.hyps(2)] by simp
qed

lemma reachable_idle:
  assumes "reachable g" and "i < length (generators g)" and "level (generators g ! i) = 0"
  shows "manaMultiplier (generators g ! i) = lit 1 \<and> rotationAngles g ! i = lit 0"
  using assms
proof (induction arbitrary: i rule: reachable.induct)
  case reach_new
  then have "i < 4"
    by (simp add: NewGame_fields initialGenerators_def)
  then have "i = 0 \<or> i = 1 \<or> i = 2 \<or> i = 3"
    by auto
  with reach_new.prems(2) show ?case
    by (auto simp: NewGame_fields initialGenerators_def lit_0)
next
  case (reach_advance g g')
  note e = advance_effect [OF reach_advance.hyps(2)]
  have i: "i < length (generators g)"
    using reach_advance.prems(1) by (simp add: e(2))
  have lv: "level (generators g ! i) = 0"
  proof -
    have "level (spinGenerator (generators g ! i) (rotationAngles g ! i)) = 0"
      using reach_advance.prems(2) by (simp add: e(4) [OF i])
    then show ?thesis
      by (simp add: spinGenerator_def split: if_splits)
  qed
  then have idle: "\<not> 0 < sint (level (generators g ! i))"
    by simp
  have "manaMultiplier (generators g ! i) = lit 1 \<and> rotationAngles g ! i = lit 0"
    using i lv by (rule reach_advance.IH)
  then show ?case
    by (simp add: e(4) [OF i] e(5) [OF i] spin_idle [OF idle])
next
  case (reach_purchase g j g')
  note f = purchase_frame [OF reach_purchase.hyps(2)]
  have i: "i < length (generators g)"
    using reach_purchase.prems(1) by (simp add: f(3))
  show ?case
  proof (cases "g' = g")
    case True
    with reach_purchase.IH [of i] reach_purchase.prems show ?thesis
      by simp
  next
    case False
    have len: "j < length (generators g)"
      using reach_purchase.hyps(2) by (rule purchase_cases(1))
    have el: "j < 4" "fge (mana g) (cost (generators g ! j))"
        "sint (level (generators g ! j)) < 100"
      using purchase_cases(2) [OF reach_purchase.hyps(2) False] by simp_all
    have ne: "i \<noteq> j"
    proof
      assume ij: "i = j"
      have ok: "generatorOK (generators g ! j)"
        using reachable_ok [OF reach_purchase.hyps(1)] len
        by (simp add: stateOK_def list_all_length)
      have "level (generators g' ! j) = level (generators g ! j) + 1"
        using purchase_eq [OF len el] reach_purchase.hyps(2) len by auto
      then have "sint (level (generators g' ! j)) = sint (level (generators g ! j)) + 1"
        using el(3) by (simp add: sint_succ)
      moreover have "0 \<le> sint (level (generators g ! j))"
        using ok by (rule generatorOK_D(1))
      ultimately show False
        using reach_purchase.prems(2) ij by simp
    qed
    then have same: "generators g' ! i = generators g ! i"
      by (rule f(4))
    then have "level (generators g ! i) = 0"
      using reach_purchase.prems(2) by simp
    with i have "manaMultiplier (generators g ! i) = lit 1 \<and> rotationAngles g ! i = lit 0"
      by (rule reach_purchase.IH)
    then show ?thesis
      by (simp add: same f(1))
  qed
qed


lemma advances_idle_generator:
  assumes "advances n g = Inr g'" and "i < length (generators g)"
    and "level (generators g ! i) = 0"
  shows "rotationAngles g' ! i = rotationAngles g ! i \<and>
         manaMultiplier (generators g' ! i) = manaMultiplier (generators g ! i) \<and>
         level (generators g' ! i) = 0"
  using assms
proof (induction n arbitrary: g)
  case 0
  then show ?case by simp
next
  case (Suc n)
  from Suc.prems(1) obtain g1 where g1: "advance g = Inr g1" and rest: "advances n g1 = Inr g'"
    by (auto split: sum.splits)
  note s = advance_idle_generator [OF g1 Suc.prems(2,3)]
  have "rotationAngles g' ! i = rotationAngles g1 ! i \<and>
        manaMultiplier (generators g' ! i) = manaMultiplier (generators g1 ! i) \<and>
        level (generators g' ! i) = 0"
    using rest Suc.prems(2,3) s by (intro Suc.IH) simp_all
  then show ?case
    by (simp add: s)
qed

lemma reachable_product:
  assumes "reachable s"
  shows "multiplierProduct (generators s) =
     fmul (fmul (fmul (fmul (lit 1)
       (if level (generators s ! 0) = 0 then lit 1 else manaMultiplier (generators s ! 0)))
       (if level (generators s ! 1) = 0 then lit 1 else manaMultiplier (generators s ! 1)))
       (if level (generators s ! 2) = 0 then lit 1 else manaMultiplier (generators s ! 2)))
       (if level (generators s ! 3) = 0 then lit 1 else manaMultiplier (generators s ! 3))"
proof -
  have len: "length (generators s) = 4"
    using reachable_lengths [OF assms] by simp
  have e: "(if level (generators s ! k) = 0 then lit 1 else manaMultiplier (generators s ! k))
      = manaMultiplier (generators s ! k)" if "k < 4" for k
    using reachable_idle [OF assms, of k] that len by simp
  show ?thesis
    using e [of 0] e [of 1] e [of 2] e [of 3]
    by (simp add: multiplierProduct_four [OF len])
qed

lemma rotateAll_total:
  assumes "\<forall>k \<in> set ks. k < length (generators g) \<and> k < length (rotationAngles g)"
  shows "\<exists>g'. rotateAll ks g = Inr g'"
  using assms
proof (induction ks arbitrary: g)
  case Nil
  then show ?case by simp
next
  case (Cons k ks)
  then have k: "k < length (generators g)" "k < length (rotationAngles g)"
    by simp_all
  obtain g1 where g1: "rotate k g = Inr g1"
    using rotate_eq [of k g] k by simp
  note e = rotate_effect(3,4) [OF g1]
  have "\<forall>j \<in> set ks. j < length (generators g1) \<and> j < length (rotationAngles g1)"
    using Cons.prems by (simp add: e)
  then obtain g' where "rotateAll ks g1 = Inr g'"
    using Cons.IH by blast
  then show ?case
    by (simp add: g1)
qed

lemma advance_total:
  assumes "length (generators g) \<le> length (rotationAngles g)"
  shows "\<exists>h. advance g = Inr h"
proof -
  let ?h = "accrue (animate g)"
  have h: "generators ?h = generators g" "rotationAngles ?h = rotationAngles g"
    by (simp_all add: accrue_fields animate_frame)
  have "\<forall>k \<in> set [0..<length (generators ?h)].
          k < length (generators ?h) \<and> k < length (rotationAngles ?h)"
    using assms by (simp add: h)
  then obtain g' where "rotateAll [0..<length (generators ?h)] ?h = Inr g'"
    using rotateAll_total by blast
  then show ?thesis
    by (simp add: advance_def Let_def)
qed

lemma advances_total:
  assumes "length (generators g) \<le> length (rotationAngles g)"
  shows "\<exists>k. advances n g = Inr k"
  using assms
proof (induction n arbitrary: g)
  case 0
  then show ?case by simp
next
  case (Suc n)
  obtain h where h: "advance g = Inr h"
    using advance_total [OF Suc.prems] by blast
  have "length (generators h) \<le> length (rotationAngles h)"
    using Suc.prems by (simp add: advance_effect(2,3) [OF h])
  then obtain k where "advances n h = Inr k"
    using Suc.IH by blast
  then show ?case
    by (simp add: h)
qed

lemma advances_keep_cache:
  assumes "advances n g = Inr k" and "sint (tickCounter g) + int n < 60"
  shows "totalMultiplier k = totalMultiplier g \<and>
         sint (tickCounter k) = sint (tickCounter g) + int n"
  using assms
proof (induction n arbitrary: g)
  case 0
  then show ?case by simp
next
  case (Suc n)
  from Suc.prems(1) obtain g1 where g1: "advance g = Inr g1" and rest: "advances n g1 = Inr k"
    by (auto split: sum.splits)
  have t: "sint (tickCounter g + 1) = sint (tickCounter g) + 1"
    using Suc.prems(2) by (intro sint_succ) simp
  then have below: "\<not> 60 \<le> sint (tickCounter g + 1)"
    using Suc.prems(2) by simp
  have s: "totalMultiplier g1 = totalMultiplier g" "tickCounter g1 = tickCounter g + 1"
    using below by (simp_all add: advance_frame [OF g1] accrue_fields)
  have "totalMultiplier k = totalMultiplier g1 \<and>
        sint (tickCounter k) = sint (tickCounter g1) + int n"
    using rest Suc.prems(2) by (intro Suc.IH) (simp_all add: s t)
  then show ?case
    by (simp add: s t)
qed

lemma after_crossing_next_frame:
  "\<exists>h. advance afterFirstRevolution = Inr h \<and> totalMultiplier h = lit 1 \<and>
        multiplierProduct (generators h) = lit (101 / 100)"
proof -
  let ?s = afterFirstRevolution
  have len: "length (generators ?s) = 4" "length (rotationAngles ?s) = 4"
    by (simp_all add: afterFirstRevolution_def idleState_fields initialGenerators_def)
  then obtain h where h: "advance ?s = Inr h"
    using advance_total [of ?s] by auto
  have tick: "\<not> 60 \<le> sint (tickCounter ?s + 1)"
    by (simp add: afterFirstRevolution_def idleState_fields)
  have tm: "totalMultiplier h = lit 1"
    using tick by (simp add: advance_frame [OF h] accrue_fields afterFirstRevolution_fields lit_1)
  have a0: "rotationAngles ?s ! 0 = Fin False (9 / 1125899906842624)"
    by (simp add: afterFirstRevolution_def idleState_fields)
  have sp: "rotationSpeed (generators ?s ! 0) = crystalStep"
    by (simp add: afterFirstRevolution_def idleState_fields crystalStep_def rotationSpeed_def
        initialGenerators_def)
  have nc: "\<not> fge (fadd (Fin False (9 / 1125899906842624)) crystalStep) twoPi"
    by (simp add: crystalStep_value twoPi_value fge_def) (simp add: f64_eval)
  have g0: "generators h ! 0 = generators ?s ! 0"
    using nc by (simp add: advance_effect(4) [OF h] len spinGenerator_def a0 sp)
  have idle: "generators h ! k = generators ?s ! k" if "k = 1 \<or> k = 2 \<or> k = 3" for k
  proof -
    have "\<not> 0 < sint (level (generators ?s ! k))"
      using that
      by (auto simp: afterFirstRevolution_def idleState_fields initialGenerators_def)
    moreover have "k < length (generators ?s)"
      using that len by auto
    ultimately show ?thesis
      by (simp add: advance_effect(4) [OF h] spin_idle)
  qed
  have lh: "length (generators h) = 4"
    using len by (simp add: advance_effect(2) [OF h])
  have "generators h = generators ?s"
  proof (rule nth_equalityI)
    show "length (generators h) = length (generators ?s)"
      using lh len by simp
    fix k
    assume "k < length (generators h)"
    then have "k = 0 \<or> k = 1 \<or> k = 2 \<or> k = 3"
      using lh by auto
    then show "generators h ! k = generators ?s ! k"
      using g0 idle by blast
  qed
  then have "multiplierProduct (generators h) = lit (101 / 100)"
    by (simp add: afterFirstRevolution_fields)
  with h tm show ?thesis
    by blast
qed

section \<open>The claims\<close>

subsection \<open>C3: an ineligible purchase changes nothing\<close>

text \<open>
  Claim C3. For every producer index \<open>i\<close> and every state, if the mana is less than the
  cost of producer \<open>i\<close>, or the level of producer \<open>i\<close> is 100 or more, then \<open>purchase i\<close>
  returns the state it was given: the mana, every producer's level, cost and multiplier,
  the rotation angles, the tick counter and \<open>totalMultiplier\<close> are all unchanged. In
  particular a purchase on a producer at level 100 changes nothing.
\<close>

theorem purchase_ineligible_unchanged:
  assumes "i < length (generators g)"
    and "flt (mana g) (cost (generators g ! i)) \<or> 100 \<le> sint (level (generators g ! i))"
  shows "purchase i g = Inr g"
  using assms by (auto simp: purchase_def dest: flt_not_fge)

theorem purchase_ineligible_unchanged_witness:
  "0 < length (generators NewGame) \<and>
   flt (mana NewGame) (cost (generators NewGame ! 0)) \<and>
   purchase 0 NewGame = Inr NewGame"
  using purchase_ineligible_unchanged [of 0 NewGame]
  by (simp add: NewGame_fields initialGenerators_def lit_3 sval_def)

subsection \<open>C10: no accrual before the counter reaches 60\<close>

text \<open>
  Claim C10. For every \<open>advance\<close> call in which the tick counter, after its increment, is
  still below 60, the mana is unchanged by the call and the tick counter is the old one
  plus 1. The increment is Go's \<open>tickCounter++\<close> on a 64-bit \<open>int\<close>; unless the counter
  held the largest \<open>int\<close>, the counter read as an integer grows by exactly 1.
\<close>

theorem advance_before_boundary:
  assumes "advance g = Inr g'" and "sint (tickCounter g + 1) < 60"
  shows "mana g' = mana g \<and> tickCounter g' = tickCounter g + 1 \<and>
         (sint (tickCounter g) < 2 ^ 63 - 1 \<longrightarrow>
            sint (tickCounter g') = sint (tickCounter g) + 1)"
proof -
  have same: "mana g' = mana g" and next_tick: "tickCounter g' = tickCounter g + 1"
    using assms by (simp_all add: advance_frame accrue_fields)
  have "sint (tickCounter g') = sint (tickCounter g) + 1"
    if "sint (tickCounter g) < 2 ^ 63 - 1"
    unfolding next_tick using that by (rule sint_succ)
  with same next_tick show ?thesis
    by blast
qed

theorem advance_before_boundary_witness:
  "advance NewGame = Inr (idleState (Fin False 0) 1 (fadd (Fin False 0) (lit (16 / 1000)))
            (fadd (Fin False 0) crystalStep)) \<and>
   sint (tickCounter NewGame + 1) < 60 \<and>
   sint (tickCounter NewGame) < 2 ^ 63 - 1 \<and>
   mana (idleState (Fin False 0) 1 (fadd (Fin False 0) (lit (16 / 1000)))
            (fadd (Fin False 0) crystalStep)) = mana NewGame \<and>
   tickCounter (idleState (Fin False 0) 1 (fadd (Fin False 0) (lit (16 / 1000)))
            (fadd (Fin False 0) crystalStep)) = tickCounter NewGame + 1 \<and>
   sint (tickCounter (idleState (Fin False 0) 1 (fadd (Fin False 0) (lit (16 / 1000)))
            (fadd (Fin False 0) crystalStep))) = sint (tickCounter NewGame) + 1"
  using advance_before_boundary [OF advance_NewGame]
  by (simp add: advance_NewGame NewGame_fields)

subsection \<open>C5: the rotation step of a frame\<close>

text \<open>
  Claim C5. For every producer with a level above 0, one \<open>advance\<close> adds
  \<open>speedPerLevel * level * 2 * math.Pi / 60\<close> to its rotation angle; its \<open>manaMultiplier\<close>
  grows by one addition of \<open>0.01\<close> if the old angle was below \<open>2\<pi>\<close> and the new angle is
  at least \<open>2\<pi>\<close>, and is unchanged otherwise, so there is at most one increment per tick
  however large the step; afterwards \<open>2\<pi>\<close> is subtracted from the new angle, once, when
  it is at least \<open>2\<pi>\<close>. All the arithmetic is the program's \<open>float64\<close> arithmetic. A
  frame that does not panic also had an angle stored for that producer.
\<close>

theorem advance_rotation:
  assumes "advance g = Inr g'" and "i < length (generators g)"
    and "0 < sint (level (generators g ! i))"
  shows "i < length (rotationAngles g) \<and>
     (let old = rotationAngles g ! i;
          step = fdiv (fmul (fmul (fmul (speedPerLevel (generators g ! i))
                                        (f64_of_int (sint (level (generators g ! i)))))
                                  (lit 2)) (lit math_Pi)) (lit 60);
          new = fadd old step
      in rotationAngles g' ! i = (if fge new twoPi then fsub new twoPi else new) \<and>
         manaMultiplier (generators g' ! i) =
           (if flt old twoPi \<and> fge new twoPi
            then fadd (manaMultiplier (generators g ! i)) (lit (1 / 100))
            else manaMultiplier (generators g ! i)))"
proof -
  note e = advance_effect(4,5) [OF assms(1,2)]
  have "i < length (rotationAngles g)"
    using assms by (rule advance_in_range)
  moreover have "rotationSpeed (generators g ! i) =
      fdiv (fmul (fmul (fmul (speedPerLevel (generators g ! i))
                   (f64_of_int (sint (level (generators g ! i))))) (lit 2)) (lit math_Pi)) (lit 60)"
    by (simp add: rotationSpeed_def)
  ultimately show ?thesis
    using assms(3) by (simp add: e Let_def spinAngle_def spinGenerator_def)
qed

theorem advance_rotation_witness:
  "advance NewGame = Inr (idleState (Fin False 0) 1 (fadd (Fin False 0) (lit (16 / 1000)))
            (fadd (Fin False 0) crystalStep)) \<and>
   0 < length (generators NewGame) \<and> 0 < sint (level (generators NewGame ! 0)) \<and>
   rotationAngles (idleState (Fin False 0) 1 (fadd (Fin False 0) (lit (16 / 1000)))
            (fadd (Fin False 0) crystalStep)) ! 0
     = fadd (Fin False 0) (fdiv (fmul (fmul (fmul (lit (1 / 10)) (f64_of_int 5)) (lit 2))
                                  (lit math_Pi)) (lit 60)) \<and>
   manaMultiplier (generators (idleState (Fin False 0) 1 (fadd (Fin False 0) (lit (16 / 1000)))
            (fadd (Fin False 0) crystalStep)) ! 0) = lit 1"
proof -
  have idx: "0 < length (generators NewGame)"
    and lvl: "0 < sint (level (generators NewGame ! 0))"
    by (simp_all add: NewGame_fields initialGenerators_def)
  have cs: "crystalStep = fdiv (fmul (fmul (fmul (lit (1 / 10)) (f64_of_int 5)) (lit 2))
                                  (lit math_Pi)) (lit 60)"
    by (simp add: crystalStep_def rotationSpeed_def initialGenerators_def)
  have nc: "\<not> fge (fadd (Fin False 0) crystalStep) twoPi"
    using first_step_no_crossing by (rule flt_not_fge)
  show ?thesis
    using advance_rotation [OF advance_NewGame idx lvl] idx lvl nc
    by (simp add: advance_NewGame idleState_fields cs [symmetric] initialGenerators_def)
qed

subsection \<open>C4: the first accrual\<close>

text \<open>
  Claim C4. \<open>NewGame\<close> has mana 0, tick counter 0 and every multiplier \<open>1.0\<close>, so
  \<open>totalMultiplier\<close> is \<open>1.0\<close>. After exactly 60 \<open>advance\<close> calls from it the mana is \<open>1.0\<close> and
  the tick counter is back at 0. In any frame, \<open>totalMultiplier\<close> is recomputed only when
  the incremented counter has reached 60, it is added to the mana only then and only if
  it is greater than 0, and the counter is reset to 0 only then.
\<close>

theorem accrual_after_60_frames:
  "mana NewGame = lit 0 \<and> tickCounter NewGame = 0 \<and> totalMultiplier NewGame = lit 1 \<and>
   (\<exists>g'. advances 60 NewGame = Inr g' \<and> mana g' = lit 1 \<and> tickCounter g' = 0) \<and>
   (advance g = Inr h \<longrightarrow>
      totalMultiplier h =
        (if 60 \<le> sint (tickCounter g + 1) then multiplierProduct (generators g)
         else totalMultiplier g) \<and>
      mana h =
        (if 60 \<le> sint (tickCounter g + 1) \<and> fgt (multiplierProduct (generators g)) (lit 0)
         then fadd (mana g) (multiplierProduct (generators g)) else mana g) \<and>
      tickCounter h = (if 60 \<le> sint (tickCounter g + 1) then 0 else tickCounter g + 1))"
proof -
  have "mana (idleState (Fin False 1) 0 (animClock 60)
            (Fin False (7074237752028435 / 2251799813685248))) = lit 1"
    and "tickCounter (idleState (Fin False 1) 0 (animClock 60)
            (Fin False (7074237752028435 / 2251799813685248))) = 0"
    by (simp_all add: idleState_fields lit_1)
  with first_minute
  have run: "\<exists>g'. advances 60 NewGame = Inr g' \<and> mana g' = lit 1 \<and> tickCounter g' = 0"
    by blast
  have start: "mana NewGame = lit 0" "tickCounter NewGame = 0" "totalMultiplier NewGame = lit 1"
    by (simp_all add: NewGame_fields lit_0 lit_1)
  have step: "totalMultiplier h =
        (if 60 \<le> sint (tickCounter g + 1) then multiplierProduct (generators g)
         else totalMultiplier g) \<and>
      mana h =
        (if 60 \<le> sint (tickCounter g + 1) \<and> fgt (multiplierProduct (generators g)) (lit 0)
         then fadd (mana g) (multiplierProduct (generators g)) else mana g) \<and>
      tickCounter h = (if 60 \<le> sint (tickCounter g + 1) then 0 else tickCounter g + 1)"
    if "advance g = Inr h"
    using that by (simp add: advance_frame accrue_fields)
  from run start step show ?thesis
    by blast
qed

theorem accrual_after_60_frames_witness:
  "advance (idleState (Fin False 0) 59 (lit 0) (lit 0)) =
     Inr (idleState (Fin False 1) 0 (fadd (lit 0) (lit (16 / 1000))) (fadd (lit 0) crystalStep)) \<and>
   60 \<le> sint (tickCounter (idleState (Fin False 0) 59 (lit 0) (lit 0)) + 1) \<and>
   fgt (multiplierProduct (generators (idleState (Fin False 0) 59 (lit 0) (lit 0)))) (lit 0) \<and>
   totalMultiplier (idleState (Fin False 1) 0 (fadd (lit 0) (lit (16 / 1000)))
       (fadd (lit 0) crystalStep)) = lit 1 \<and>
   mana (idleState (Fin False 1) 0 (fadd (lit 0) (lit (16 / 1000)))
       (fadd (lit 0) crystalStep)) = lit 1 \<and>
   tickCounter (idleState (Fin False 1) 0 (fadd (lit 0) (lit (16 / 1000)))
       (fadd (lit 0) crystalStep)) = 0"
proof -
  let ?g = "idleState (Fin False 0) 59 (lit 0) (lit 0)"
  have nc: "flt (fadd (lit 0) crystalStep) twoPi"
    using first_step_no_crossing by (simp add: lit_0)
  have add: "fadd (Fin False 0) (Fin False 1) = Fin False 1"
    by (simp add: f64_eval)
  have run: "advance ?g =
     Inr (idleState (Fin False 1) 0 (fadd (lit 0) (lit (16 / 1000))) (fadd (lit 0) crystalStep))"
  proof -
    have t: "60 \<le> sint (59 + 1 :: 64 word)"
      by simp
    show ?thesis
      by (subst advance_idleState [OF nc]) (simp only: t if_True add)
  qed
  have pos: "fgt (multiplierProduct (generators ?g)) (lit 0)"
    by (simp add: idleState_fields multiplierProduct_initial fgt_def lit_0 sval_def)
  from accrual_after_60_frames [of ?g] run pos show ?thesis
    by (simp add: idleState_fields multiplierProduct_initial lit_1 add)
qed

subsection \<open>C9: \<open>manaPerSec\<close> is for display only\<close>

text \<open>
  Claim C9. The mana added at a one-second boundary is the \<open>float64\<close> \<open>totalMultiplier\<close>
  itself, recomputed in that frame. The field \<open>manaPerSec\<close> is
  \<open>int64(totalMultiplier * 100 + 0.5)\<close>, and its value never influences the mana or any
  other field: \<open>advance\<close> and \<open>purchase\<close> started from two states that differ only in
  \<open>manaPerSec\<close> give results (or the same panic) that differ at most in \<open>manaPerSec\<close>.
\<close>

theorem manaPerSec_display_only:
  "map_sum id forgetManaPerSec (advance (g\<lparr>manaPerSec := v\<rparr>))
     = map_sum id forgetManaPerSec (advance g) \<and>
   map_sum id forgetManaPerSec (purchase i (g\<lparr>manaPerSec := v\<rparr>))
     = map_sum id forgetManaPerSec (purchase i g) \<and>
   manaPerSec (calculateManaPerSec g)
     = int64_of_f64 (fadd (fmul (totalMultiplier (calculateManaPerSec g)) (lit 100)) (lit (1 / 2))) \<and>
   (advance g = Inr h \<and> 60 \<le> sint (tickCounter g + 1) \<and> fgt (totalMultiplier h) (lit 0)
    \<longrightarrow> totalMultiplier h = multiplierProduct (generators g) \<and>
        mana h = fadd (mana g) (totalMultiplier h) \<and>
        manaPerSec h = int64_of_f64 (fadd (fmul (totalMultiplier h) (lit 100)) (lit (1 / 2))))"
proof -
  have "totalMultiplier h = multiplierProduct (generators g) \<and>
        mana h = fadd (mana g) (totalMultiplier h) \<and>
        manaPerSec h = int64_of_f64 (fadd (fmul (totalMultiplier h) (lit 100)) (lit (1 / 2)))"
    if a: "advance g = Inr h" and t: "60 \<le> sint (tickCounter g + 1)"
      and p: "fgt (totalMultiplier h) (lit 0)"
  proof -
    have tm: "totalMultiplier h = multiplierProduct (generators g)"
      using a t by (simp add: advance_frame accrue_fields)
    have "mana h = fadd (mana g) (multiplierProduct (generators g))"
      using a t p by (simp add: advance_frame accrue_fields tm)
    moreover have "manaPerSec h = manaPerSec (accrue (animate g))"
      by (subst advance_effect(1) [OF a]) simp
    then have "manaPerSec h =
        int64_of_f64 (fadd (fmul (multiplierProduct (generators g)) (lit 100)) (lit (1 / 2)))"
      using t by (simp add: accrue_def Let_def calculateManaPerSec_def animate_frame)
    ultimately show ?thesis
      by (simp add: tm)
  qed
  moreover have "manaPerSec (calculateManaPerSec g)
     = int64_of_f64 (fadd (fmul (totalMultiplier (calculateManaPerSec g)) (lit 100)) (lit (1 / 2)))"
    by (simp add: calculateManaPerSec_def Let_def)
  ultimately show ?thesis
    using advance_manaPerSec purchase_manaPerSec by blast
qed

theorem manaPerSec_display_only_witness:
  "advance (idleState (lit 3) 59 (lit 0) (lit 0)) =
     Inr (idleState (Fin False 4) 0 (fadd (lit 0) (lit (16 / 1000))) (fadd (lit 0) crystalStep)) \<and>
   60 \<le> sint (tickCounter (idleState (lit 3) 59 (lit 0) (lit 0)) + 1) \<and>
   fgt (totalMultiplier (idleState (Fin False 4) 0 (fadd (lit 0) (lit (16 / 1000)))
          (fadd (lit 0) crystalStep))) (lit 0) \<and>
   mana (idleState (Fin False 4) 0 (fadd (lit 0) (lit (16 / 1000))) (fadd (lit 0) crystalStep))
     = fadd (mana (idleState (lit 3) 59 (lit 0) (lit 0)))
            (totalMultiplier (idleState (Fin False 4) 0 (fadd (lit 0) (lit (16 / 1000)))
               (fadd (lit 0) crystalStep)))"
proof -
  let ?g = "idleState (lit 3) 59 (lit 0) (lit 0)"
  let ?h = "idleState (Fin False 4) 0 (fadd (lit 0) (lit (16 / 1000))) (fadd (lit 0) crystalStep)"
  have nc: "flt (fadd (lit 0) crystalStep) twoPi"
    using first_step_no_crossing by (simp add: lit_0)
  have add: "fadd (lit 3) (Fin False 1) = Fin False 4"
    by (simp add: lit_3 f64_eval)
  have t: "60 \<le> sint (59 + 1 :: 64 word)"
    by simp
  have run: "advance ?g = Inr ?h"
    by (subst advance_idleState [OF nc]) (simp only: t if_True add)
  have tick: "60 \<le> sint (tickCounter ?g + 1)"
    by (simp add: idleState_fields)
  have pos: "fgt (totalMultiplier ?h) (lit 0)"
    by (simp add: idleState_fields fgt_def lit_0 sval_def)
  from manaPerSec_display_only [where g = ?g and h = ?h] run tick pos show ?thesis
    by blast
qed

subsection \<open>C6: the mana is never negative\<close>

text \<open>
  Claim C6. In every reachable state the mana is not negative (and is not a NaN): it
  starts at 0, a frame only adds a \<open>totalMultiplier\<close> that is greater than 0, and a
  purchase subtracts a cost only when the mana is at least that cost. The costs stay
  finite, so the subtraction never meets two infinities.
\<close>

theorem mana_never_negative:
  assumes "reachable g"
  shows "fle (lit 0) (mana g)"
  using reachable_ok [OF assms] by (simp add: stateOK_def)

theorem mana_never_negative_witness:
  "reachable afterFirstRevolution \<and> mana afterFirstRevolution = lit 2 \<and>
   fle (lit 0) (mana afterFirstRevolution)"
proof -
  have "lit 2 = mana afterFirstRevolution"
    by (simp add: afterFirstRevolution_def idleState_fields lit_2)
  with mana_never_negative [OF afterFirstRevolution_reachable] afterFirstRevolution_reachable
  show ?thesis
    by simp
qed

subsection \<open>C7: the angles stay in \<open>[0, 2\<pi>)\<close>\<close>

text \<open>
  Claim C7. In every reachable state every rotation angle is at least 0 and less than
  \<open>2\<pi>\<close>, the \<open>float64\<close> \<open>2 * math.Pi\<close> the code compares with. The reason is the one the
  claim gives: every level is at most 100 and every \<open>speedPerLevel\<close> is at most \<open>0.1\<close>, so
  the step of a turning generator is itself not negative and less than \<open>2\<pi>\<close>, and one
  subtraction of \<open>2\<pi>\<close> after a crossing brings the angle back below \<open>2\<pi>\<close>.
\<close>

theorem angles_stay_in_range:
  assumes "reachable g"
  shows "(i < length (rotationAngles g) \<longrightarrow>
            fle (lit 0) (rotationAngles g ! i) \<and> flt (rotationAngles g ! i) twoPi) \<and>
         (j < length (generators g) \<longrightarrow>
            sint (level (generators g ! j)) \<le> 100 \<and>
            fle (speedPerLevel (generators g ! j)) (lit (1 / 10)) \<and>
            (0 < sint (level (generators g ! j)) \<longrightarrow>
               fle (lit 0) (rotationSpeed (generators g ! j)) \<and>
               flt (rotationSpeed (generators g ! j)) twoPi))"
proof -
  note ok = reachable_ok [OF assms]
  have a: "fle (lit 0) (rotationAngles g ! i) \<and> flt (rotationAngles g ! i) twoPi"
    if "i < length (rotationAngles g)"
  proof -
    have "angleOK (rotationAngles g ! i)"
      using ok that by (simp add: stateOK_def list_all_length)
    then show ?thesis
      by (simp add: angleOK_def)
  qed
  have b: "sint (level (generators g ! j)) \<le> 100 \<and>
            fle (speedPerLevel (generators g ! j)) (lit (1 / 10)) \<and>
            (0 < sint (level (generators g ! j)) \<longrightarrow>
               fle (lit 0) (rotationSpeed (generators g ! j)) \<and>
               flt (rotationSpeed (generators g ! j)) twoPi)"
    if "j < length (generators g)"
  proof -
    have gen: "generatorOK (generators g ! j)"
      using ok that by (simp add: stateOK_def list_all_length)
    obtain q where q: "speedPerLevel (generators g ! j) = Fin False q"
        "q \<le> 3602879701896397 / 36028797018963968"
      using generatorOK_D(4) [OF gen] by blast
    have speed: "fle (speedPerLevel (generators g ! j)) (lit (1 / 10))"
      using q(2) by (simp add: q(1) lit_tenth sval_simps)
    have step: "fle (lit 0) (rotationSpeed (generators g ! j)) \<and>
               flt (rotationSpeed (generators g ! j)) twoPi"
      if lv: "0 < sint (level (generators g ! j))"
    proof -
      obtain r where r: "rotationSpeed (generators g ! j) = Fin False r" "0 \<le> r" "r \<le> 2"
        using rotationSpeed_bound [OF gen lv] by blast
      then show ?thesis
        by (simp add: lit_0 twoPi_value sval_simps)
    qed
    from generatorOK_D(2) [OF gen] speed step show ?thesis
      by blast
  qed
  from a b show ?thesis
    by blast
qed

theorem angles_stay_in_range_witness:
  "reachable afterFirstRevolution \<and>
   0 < length (rotationAngles afterFirstRevolution) \<and>
   0 < length (generators afterFirstRevolution) \<and>
   0 < sint (level (generators afterFirstRevolution ! 0)) \<and>
   rotationAngles afterFirstRevolution ! 0 = Fin False (9 / 1125899906842624) \<and>
   fle (lit 0) (rotationAngles afterFirstRevolution ! 0) \<and>
   flt (rotationAngles afterFirstRevolution ! 0) twoPi \<and>
   sint (level (generators afterFirstRevolution ! 0)) \<le> 100 \<and>
   fle (speedPerLevel (generators afterFirstRevolution ! 0)) (lit (1 / 10)) \<and>
   flt (rotationSpeed (generators afterFirstRevolution ! 0)) twoPi"
proof -
  have f: "0 < length (rotationAngles afterFirstRevolution)"
    "0 < length (generators afterFirstRevolution)"
    "0 < sint (level (generators afterFirstRevolution ! 0))"
    "rotationAngles afterFirstRevolution ! 0 = Fin False (9 / 1125899906842624)"
    by (simp_all add: afterFirstRevolution_def idleState_fields initialGenerators_def)
  from angles_stay_in_range [OF afterFirstRevolution_reachable, of 0 0] f
    afterFirstRevolution_reachable
  show ?thesis
    by simp
qed

subsection \<open>C8: a generator at level 0 is inert\<close>

text \<open>
  Claim C8. For every producer whose level is 0, \<open>advance\<close> leaves its rotation angle and
  its \<open>manaMultiplier\<close> unchanged and its level at 0, over any number \<open>n\<close> of calls
  (\<open>n = 1\<close> is one call). A purchase changes no multiplier and no angle, and changes no
  field of a producer other than the one bought. So in every reachable state a producer
  at level 0 still has the multiplier \<open>1.0\<close> and the angle \<open>0.0\<close> it started with, and the
  product that \<open>calculateManaPerSec\<close> computes there has the factor \<open>1.0\<close> at the place of
  every producer at level 0.
\<close>

theorem idle_generator_inert:
  "(advances n g = Inr g' \<and> i < length (generators g) \<and> level (generators g ! i) = 0 \<longrightarrow>
      rotationAngles g' ! i = rotationAngles g ! i \<and>
      manaMultiplier (generators g' ! i) = manaMultiplier (generators g ! i) \<and>
      level (generators g' ! i) = 0) \<and>
   (purchase j p = Inr h \<longrightarrow>
      manaMultiplier (generators h ! i) = manaMultiplier (generators p ! i) \<and>
      rotationAngles h = rotationAngles p \<and>
      (i \<noteq> j \<longrightarrow> generators h ! i = generators p ! i)) \<and>
   (reachable s \<and> i < length (generators s) \<and> level (generators s ! i) = 0 \<longrightarrow>
      manaMultiplier (generators s ! i) = lit 1 \<and> rotationAngles s ! i = lit 0) \<and>
   (reachable s \<longrightarrow>
      length (generators s) = 4 \<and>
      multiplierProduct (generators s) =
        fmul (fmul (fmul (fmul (lit 1)
          (if level (generators s ! 0) = 0 then lit 1 else manaMultiplier (generators s ! 0)))
          (if level (generators s ! 1) = 0 then lit 1 else manaMultiplier (generators s ! 1)))
          (if level (generators s ! 2) = 0 then lit 1 else manaMultiplier (generators s ! 2)))
          (if level (generators s ! 3) = 0 then lit 1 else manaMultiplier (generators s ! 3)))"
proof -
  have a: "rotationAngles g' ! i = rotationAngles g ! i \<and>
      manaMultiplier (generators g' ! i) = manaMultiplier (generators g ! i) \<and>
      level (generators g' ! i) = 0"
    if "advances n g = Inr g' \<and> i < length (generators g) \<and> level (generators g ! i) = 0"
    using that advances_idle_generator by blast
  have b: "manaMultiplier (generators h ! i) = manaMultiplier (generators p ! i) \<and>
      rotationAngles h = rotationAngles p \<and>
      (i \<noteq> j \<longrightarrow> generators h ! i = generators p ! i)"
    if "purchase j p = Inr h"
    using purchase_multiplier [OF that] purchase_frame(1,4) [OF that] by blast
  have c: "manaMultiplier (generators s ! i) = lit 1 \<and> rotationAngles s ! i = lit 0"
    if "reachable s \<and> i < length (generators s) \<and> level (generators s ! i) = 0"
    using that reachable_idle by blast
  have d: "length (generators s) = 4 \<and>
      multiplierProduct (generators s) =
        fmul (fmul (fmul (fmul (lit 1)
          (if level (generators s ! 0) = 0 then lit 1 else manaMultiplier (generators s ! 0)))
          (if level (generators s ! 1) = 0 then lit 1 else manaMultiplier (generators s ! 1)))
          (if level (generators s ! 2) = 0 then lit 1 else manaMultiplier (generators s ! 2)))
          (if level (generators s ! 3) = 0 then lit 1 else manaMultiplier (generators s ! 3))"
    if "reachable s"
    using reachable_lengths [OF that] reachable_product [OF that] by blast
  from a b c d show ?thesis
    by blast
qed

theorem idle_generator_inert_witness:
  "advances 1 NewGame = Inr (idleState (Fin False 0) 1 (fadd (Fin False 0) (lit (16 / 1000)))
            (fadd (Fin False 0) crystalStep)) \<and>
   1 < length (generators NewGame) \<and> level (generators NewGame ! 1) = 0 \<and>
   rotationAngles (idleState (Fin False 0) 1 (fadd (Fin False 0) (lit (16 / 1000)))
            (fadd (Fin False 0) crystalStep)) ! 1 = rotationAngles NewGame ! 1 \<and>
   manaMultiplier (generators (idleState (Fin False 0) 1 (fadd (Fin False 0) (lit (16 / 1000)))
            (fadd (Fin False 0) crystalStep)) ! 1) = manaMultiplier (generators NewGame ! 1) \<and>
   purchase 0 scenarioState = Inr scenarioBought \<and>
   manaMultiplier (generators scenarioBought ! 1) = manaMultiplier (generators scenarioState ! 1) \<and>
   generators scenarioBought ! 1 = generators scenarioState ! 1 \<and>
   reachable afterFirstRevolution \<and>
   1 < length (generators afterFirstRevolution) \<and>
   level (generators afterFirstRevolution ! 1) = 0 \<and>
   manaMultiplier (generators afterFirstRevolution ! 1) = lit 1 \<and>
   rotationAngles afterFirstRevolution ! 1 = lit 0 \<and>
   multiplierProduct (generators afterFirstRevolution) =
     fmul (fmul (fmul (fmul (lit 1) (manaMultiplier (generators afterFirstRevolution ! 0)))
                      (lit 1)) (lit 1)) (lit 1)"
proof -
  have run: "advances 1 NewGame = Inr (idleState (Fin False 0) 1
      (fadd (Fin False 0) (lit (16 / 1000))) (fadd (Fin False 0) crystalStep))"
    by (simp add: advance_NewGame)
  have idx: "1 < length (generators NewGame)" and lvl: "level (generators NewGame ! 1) = 0"
    by (simp_all add: NewGame_fields initialGenerators_def)
  have r: "reachable afterFirstRevolution"
    by (rule afterFirstRevolution_reachable)
  have f: "1 < length (generators afterFirstRevolution)"
    "level (generators afterFirstRevolution ! 1) = 0"
    "level (generators afterFirstRevolution ! 2) = 0"
    "level (generators afterFirstRevolution ! 3) = 0"
    "level (generators afterFirstRevolution ! 0) \<noteq> 0"
    by (simp_all add: afterFirstRevolution_def idleState_fields initialGenerators_def)
  note t = idle_generator_inert [where n = 1 and g = NewGame and i = 1 and j = 0
      and p = scenarioState and h = scenarioBought and s = afterFirstRevolution
      and g' = "idleState (Fin False 0) 1
        (fadd (Fin False 0) (lit (16 / 1000))) (fadd (Fin False 0) crystalStep)"]
  from t run idx lvl scenario_purchase r f show ?thesis
    by simp
qed

subsection \<open>C2: a successful purchase\<close>

text \<open>
  Claim C2 says that an eligible purchase leaves the mana at the old mana minus the old
  cost, the level one higher, \<open>totalMultiplier\<close> recomputed and the cost multiplied by the
  growth factor of the producer, and that in particular, with producer 0 at cost \<open>3.0\<close> and
  level 5 and with mana \<open>3.0\<close>, the purchase yields mana \<open>0.0\<close>, level 6 and cost \<open>3.45\<close>.
  The scenario is \<open>scenarioState\<close>. The mana and the level come out as stated. The cost is
  the \<open>float64\<close> product \<open>3.0 * 1.15\<close>, which is \<open>7768709357214105 / 2 ^ 51\<close>, printed
  \<open>3.4499999999999997\<close>; the \<open>float64\<close> \<open>3.45\<close> is \<open>3884354678607053 / 2 ^ 50\<close>, the next
  value above it. The cost is not \<open>3.45\<close>.
\<close>

theorem purchase_scenario_cost_not_345:
  "cost (generators scenarioState ! 0) = lit 3 \<and>
   level (generators scenarioState ! 0) = 5 \<and>
   mana scenarioState = lit 3 \<and>
   purchase 0 scenarioState = Inr scenarioBought \<and>
   mana scenarioBought = lit 0 \<and>
   level (generators scenarioBought ! 0) = 6 \<and>
   cost (generators scenarioBought ! 0) = Fin False (7768709357214105 / 2251799813685248) \<and>
   lit (345 / 100) = Fin False (3884354678607053 / 1125899906842624) \<and>
   cost (generators scenarioBought ! 0) \<noteq> lit (345 / 100)"
proof -
  have "cost (generators scenarioState ! 0) = lit 3"
    and "level (generators scenarioState ! 0) = 5"
    and "mana scenarioState = lit 3"
    by (simp_all add: scenarioState_def NewGame_fields initialGenerators_def)
  moreover have "mana scenarioBought = lit 0"
    and "level (generators scenarioBought ! 0) = 6"
    and c: "cost (generators scenarioBought ! 0)
         = Fin False (7768709357214105 / 2251799813685248)"
    by (simp_all add: scenarioBought_def NewGame_fields initialGenerators_def lit_0)
  moreover have "cost (generators scenarioBought ! 0) \<noteq> lit (345 / 100)"
    unfolding c scenario_cost_value(2) by simp
  ultimately show ?thesis
    using scenario_purchase scenario_cost_value(2) by simp
qed

text \<open>
  Claim C2 as amended. For every producer index \<open>i\<close> below 4, whenever \<open>purchase i\<close> is called
  with the mana at least the producer's cost and its level below 100, the purchase
  succeeds; afterwards the mana is the old mana minus the old cost, the level is the old
  level plus 1, \<open>totalMultiplier\<close> is the product of the multipliers (with four producers:
  \<open>1.0\<close> times the four multipliers, from the left), and the cost is the old cost times
  \<open>1.15\<close> for producer 0 and times \<open>1.20\<close> for producers 1 to 3, all in \<open>float64\<close>. In
  particular, with producer 0 at cost \<open>3.0\<close> and level 5 and with mana \<open>3.0\<close>, the purchase
  yields mana \<open>0.0\<close>, level 6 and the cost \<open>3.0 * 1.15 = 7768709357214105 / 2 ^ 51\<close>, which
  is within \<open>1 / 10 ^ 15\<close> of \<open>3.45\<close> but is not the \<open>float64\<close> \<open>3.45\<close>.
\<close>

theorem purchase_success:
  assumes "i < length (generators g)" and "i < 4"
    and "fge (mana g) (cost (generators g ! i))" and "sint (level (generators g ! i)) < 100"
  shows "\<exists>g'. purchase i g = Inr g' \<and>
      mana g' = fsub (mana g) (cost (generators g ! i)) \<and>
      level (generators g' ! i) = level (generators g ! i) + 1 \<and>
      sint (level (generators g' ! i)) = sint (level (generators g ! i)) + 1 \<and>
      totalMultiplier g' = multiplierProduct (generators g') \<and>
      (length (generators g) = 4 \<longrightarrow>
         totalMultiplier g' =
           fmul (fmul (fmul (fmul (lit 1) (manaMultiplier (generators g' ! 0)))
                            (manaMultiplier (generators g' ! 1)))
                      (manaMultiplier (generators g' ! 2)))
                (manaMultiplier (generators g' ! 3))) \<and>
      cost (generators g' ! i) =
        fmul (cost (generators g ! i)) (lit (if i = 0 then 115 / 100 else 12 / 10)) \<and>
      (cost (generators g ! i) = lit 3 \<and> level (generators g ! i) = 5 \<and> mana g = lit 3 \<and> i = 0
         \<longrightarrow> mana g' = lit 0 \<and> level (generators g' ! i) = 6 \<and>
             cost (generators g' ! i) = fmul (lit 3) (lit (115 / 100)) \<and>
             cost (generators g' ! i) = Fin False (7768709357214105 / 2251799813685248) \<and>
             cost (generators g' ! i) \<noteq> lit (345 / 100) \<and>
             near (cost (generators g' ! i)) (345 / 100) (1 / 10 ^ 15))"
proof -
  let ?gen = "(generators g ! i)
                 \<lparr>level := level (generators g ! i) + 1,
                  cost := fmul (cost (generators g ! i)) (scalingFactor ! i)\<rparr>"
  define g' where "g' = g\<lparr>mana := fsub (mana g) (cost (generators g ! i)),
            totalMultiplier := multiplierProduct (generators g),
            manaPerSec := int64_of_f64
              (fadd (fmul (multiplierProduct (generators g)) (lit 100)) (lit (1 / 2))),
            generators := (generators g)[i := ?gen]\<rparr>"
  have run: "purchase i g = Inr g'"
    unfolding g'_def using assms by (rule purchase_eq)
  have gi: "generators g' ! i = ?gen"
    using assms(1) by (simp add: g'_def)
  have m: "mana g' = fsub (mana g) (cost (generators g ! i))"
    by (simp add: g'_def)
  have l: "level (generators g' ! i) = level (generators g ! i) + 1"
    by (simp add: gi)
  have sl: "sint (level (generators g' ! i)) = sint (level (generators g ! i)) + 1"
    unfolding l using assms(4) by (intro sint_succ) simp
  have "multiplierProduct (generators g') = multiplierProduct (generators g)"
    unfolding g'_def by (rule multiplierProduct_cong) (simp add: map_manaMultiplier_update)
  then have t: "totalMultiplier g' = multiplierProduct (generators g')"
    by (simp add: g'_def)
  have t4: "totalMultiplier g' =
           fmul (fmul (fmul (fmul (lit 1) (manaMultiplier (generators g' ! 0)))
                            (manaMultiplier (generators g' ! 1)))
                      (manaMultiplier (generators g' ! 2)))
                (manaMultiplier (generators g' ! 3))"
    if "length (generators g) = 4"
  proof -
    have "length (generators g') = 4"
      using that by (simp add: g'_def)
    then show ?thesis
      unfolding t by (rule multiplierProduct_four)
  qed
  have c: "cost (generators g' ! i) =
        fmul (cost (generators g ! i)) (lit (if i = 0 then 115 / 100 else 12 / 10))"
    using assms(2) by (simp add: gi scalingFactor_nth(1))
  have sub: "fsub (lit 3) (lit 3) = lit 0"
    by (simp add: lit_3 lit_0 fsub_def sval_def)
  have nr: "near (Fin False (7768709357214105 / 2251799813685248)) (345 / 100) (1 / 10 ^ 15)"
    by (simp add: near_def sval_def)
  have ne: "Fin False (7768709357214105 / 2251799813685248) \<noteq> lit (345 / 100)"
    unfolding scenario_cost_value(2) by simp
  have scenario: "mana g' = lit 0 \<and> level (generators g' ! i) = 6 \<and>
             cost (generators g' ! i) = fmul (lit 3) (lit (115 / 100)) \<and>
             cost (generators g' ! i) = Fin False (7768709357214105 / 2251799813685248) \<and>
             cost (generators g' ! i) \<noteq> lit (345 / 100) \<and>
             near (cost (generators g' ! i)) (345 / 100) (1 / 10 ^ 15)"
    if "cost (generators g ! i) = lit 3 \<and> level (generators g ! i) = 5 \<and> mana g = lit 3 \<and> i = 0"
  proof -
    from that have c0: "cost (generators g ! i) = lit 3" and l0: "level (generators g ! i) = 5"
      and m0: "mana g = lit 3" and i0: "i = 0"
      by blast+
    have "mana g' = lit 0"
      by (simp only: m c0 m0 sub)
    moreover have "level (generators g' ! i) = 6"
      by (simp add: l l0)
    moreover have c3: "cost (generators g' ! i) = fmul (lit 3) (lit (115 / 100))"
      unfolding c c0 using i0 by simp
    moreover have c4: "cost (generators g' ! i) = Fin False (7768709357214105 / 2251799813685248)"
      unfolding c3 by (rule scenario_cost_value(1))
    moreover have "cost (generators g' ! i) \<noteq> lit (345 / 100)"
      unfolding c4 by (rule ne)
    moreover have "near (cost (generators g' ! i)) (345 / 100) (1 / 10 ^ 15)"
      unfolding c4 by (rule nr)
    ultimately show ?thesis
      by blast
  qed
  from run m l sl t t4 c scenario show ?thesis
    by blast
qed

theorem purchase_success_witness:
  "0 < length (generators scenarioState) \<and> (0 :: nat) < 4 \<and>
   fge (mana scenarioState) (cost (generators scenarioState ! 0)) \<and>
   sint (level (generators scenarioState ! 0)) < 100 \<and>
   length (generators scenarioState) = 4 \<and>
   cost (generators scenarioState ! 0) = lit 3 \<and>
   level (generators scenarioState ! 0) = 5 \<and>
   mana scenarioState = lit 3 \<and>
   purchase 0 scenarioState = Inr scenarioBought \<and>
   mana scenarioBought = lit 0 \<and> level (generators scenarioBought ! 0) = 6 \<and>
   totalMultiplier scenarioBought = multiplierProduct (generators scenarioBought) \<and>
   totalMultiplier scenarioBought =
     fmul (fmul (fmul (fmul (lit 1) (manaMultiplier (generators scenarioBought ! 0)))
                      (manaMultiplier (generators scenarioBought ! 1)))
                (manaMultiplier (generators scenarioBought ! 2)))
          (manaMultiplier (generators scenarioBought ! 3)) \<and>
   cost (generators scenarioBought ! 0) = fmul (lit 3) (lit (115 / 100)) \<and>
   cost (generators scenarioBought ! 0) \<noteq> lit (345 / 100) \<and>
   near (cost (generators scenarioBought ! 0)) (345 / 100) (1 / 10 ^ 15)"
proof -
  have f: "generators scenarioState = initialGenerators" "mana scenarioState = lit 3"
    by (simp_all add: scenarioState_def NewGame_fields)
  have h: "0 < length (generators scenarioState)" "(0 :: nat) < 4"
    "fge (mana scenarioState) (cost (generators scenarioState ! 0))"
    "sint (level (generators scenarioState ! 0)) < 100"
    by (simp_all add: f initialGenerators_def fge_def sval_def lit_3)
  have s: "cost (generators scenarioState ! 0) = lit 3"
    "level (generators scenarioState ! 0) = 5" "mana scenarioState = lit 3"
    "length (generators scenarioState) = 4"
    by (simp_all add: f initialGenerators_def)
  from purchase_success [OF h] s h scenario_purchase show ?thesis
    by auto
qed

subsection \<open>C1: the cached product after a frame or a purchase\<close>

text \<open>
  Claim C1 says that in every reachable state, right after any \<open>advance\<close> or \<open>purchase\<close>,
  \<open>totalMultiplier\<close> is the product of the four multipliers, also after a frame in which a
  revolution incremented a multiplier. The code recomputes the product in the accrual
  step, before the rotation loop of the same frame, so an increment is not seen until the
  next recomputation. The 120th frame from \<open>NewGame\<close> shows it: the state after 119 frames
  is reachable, the Mana Crystal crosses \<open>2\<pi>\<close> in the next frame and its multiplier becomes
  \<open>1.01\<close>, while \<open>totalMultiplier\<close> is still \<open>1.0\<close>; the product of the multipliers is
  \<open>1.01\<close>, which is not within a thousandth of \<open>1.0\<close>.
\<close>

theorem totalMultiplier_stale_after_crossing:
  "reachable (idleState (Fin False 1) 59 (animClock 119)
            (Fin False (7015285770761545 / 1125899906842624))) \<and>
   advance (idleState (Fin False 1) 59 (animClock 119)
            (Fin False (7015285770761545 / 1125899906842624))) = Inr afterFirstRevolution \<and>
   totalMultiplier afterFirstRevolution = lit 1 \<and>
   multiplierProduct (generators afterFirstRevolution) = lit (101 / 100) \<and>
   totalMultiplier afterFirstRevolution \<noteq> multiplierProduct (generators afterFirstRevolution) \<and>
   \<not> near (multiplierProduct (generators afterFirstRevolution)) 1 (1 / 1000)"
proof -
  have "reachable (idleState (Fin False 1) 59 (animClock 119)
            (Fin False (7015285770761545 / 1125899906842624)))"
    using before_crossing reach_new by (rule advances_reachable)
  moreover have "\<not> near (multiplierProduct (generators afterFirstRevolution)) 1 (1 / 1000)"
    by (simp add: afterFirstRevolution_fields near_def sval_def)
  ultimately show ?thesis
    by (simp add: crossing_frame afterFirstRevolution_fields lit_1)
qed

text \<open>
  Claim C1 as amended. A purchase never changes the product of the multipliers; an
  eligible one (mana at least the cost, level below 100) leaves \<open>totalMultiplier\<close> equal to
  that product, and any other one returns the state unchanged. After \<open>advance\<close>,
  \<open>totalMultiplier\<close> is the product of the multipliers as they were before the call if the
  incremented counter reached 60, and is unchanged otherwise; so it is the product of the
  current multipliers when no multiplier was incremented in that call and the counter
  reached 60 or the equality held before. After a frame in which a revolution
  incremented a multiplier it is therefore the product of the old values (the counter
  having reached 60 in that frame, or the equality having held before it), and it keeps
  that value through every following run of frames in which the counter stays below 60,
  until the next boundary or eligible purchase recomputes it. The product is the one the code
  computes: with four producers, \<open>1.0\<close> times the four multipliers, from the left, in
  \<open>float64\<close>.
\<close>

theorem totalMultiplier_cache:
  "(purchase i g = Inr g' \<longrightarrow>
      multiplierProduct (generators g') = multiplierProduct (generators g) \<and>
      (fge (mana g) (cost (generators g ! i)) \<and> sint (level (generators g ! i)) < 100
         \<longrightarrow> totalMultiplier g' = multiplierProduct (generators g')) \<and>
      (\<not> (fge (mana g) (cost (generators g ! i)) \<and> sint (level (generators g ! i)) < 100)
         \<longrightarrow> g' = g)) \<and>
   (advance g = Inr h \<longrightarrow>
      totalMultiplier h =
        (if 60 \<le> sint (tickCounter g + 1) then multiplierProduct (generators g)
         else totalMultiplier g) \<and>
      (map manaMultiplier (generators h) = map manaMultiplier (generators g) \<and>
       (60 \<le> sint (tickCounter g + 1) \<or> totalMultiplier g = multiplierProduct (generators g))
         \<longrightarrow> totalMultiplier h = multiplierProduct (generators h))) \<and>
   (advances n g = Inr k \<and> sint (tickCounter g) + int n < 60
      \<longrightarrow> totalMultiplier k = totalMultiplier g) \<and>
   (length (generators g) = 4 \<longrightarrow>
      multiplierProduct (generators g) =
        fmul (fmul (fmul (fmul (lit 1) (manaMultiplier (generators g ! 0)))
                         (manaMultiplier (generators g ! 1)))
                   (manaMultiplier (generators g ! 2)))
             (manaMultiplier (generators g ! 3)))"
proof -
  have p: "multiplierProduct (generators g') = multiplierProduct (generators g) \<and>
      (fge (mana g) (cost (generators g ! i)) \<and> sint (level (generators g ! i)) < 100
         \<longrightarrow> totalMultiplier g' = multiplierProduct (generators g')) \<and>
      (\<not> (fge (mana g) (cost (generators g ! i)) \<and> sint (level (generators g ! i)) < 100)
         \<longrightarrow> g' = g)"
    if run: "purchase i g = Inr g'"
  proof -
    have "multiplierProduct (generators g') = multiplierProduct (generators g)"
      using purchase_frame(2) [OF run] by (rule multiplierProduct_cong)
    moreover have "totalMultiplier g' = multiplierProduct (generators g')"
      if "fge (mana g) (cost (generators g ! i)) \<and> sint (level (generators g ! i)) < 100"
      using purchase_total_multiplier [OF run] that by blast
    moreover have "g' = g"
      if "\<not> (fge (mana g) (cost (generators g ! i)) \<and> sint (level (generators g ! i)) < 100)"
      using purchase_cases(2) [OF run] that by blast
    ultimately show ?thesis
      by blast
  qed
  have a: "totalMultiplier h =
        (if 60 \<le> sint (tickCounter g + 1) then multiplierProduct (generators g)
         else totalMultiplier g) \<and>
      (map manaMultiplier (generators h) = map manaMultiplier (generators g) \<and>
       (60 \<le> sint (tickCounter g + 1) \<or> totalMultiplier g = multiplierProduct (generators g))
         \<longrightarrow> totalMultiplier h = multiplierProduct (generators h))"
    if run: "advance g = Inr h"
  proof -
    have 1: "totalMultiplier h =
        (if 60 \<le> sint (tickCounter g + 1) then multiplierProduct (generators g)
         else totalMultiplier g)"
      by (simp add: advance_frame [OF run] accrue_fields)
    have "totalMultiplier h = multiplierProduct (generators h)"
      if "map manaMultiplier (generators h) = map manaMultiplier (generators g)"
        and "60 \<le> sint (tickCounter g + 1) \<or> totalMultiplier g = multiplierProduct (generators g)"
      using advance_total_multiplier [OF run that(2)] multiplierProduct_cong [OF that(1)]
      by simp
    with 1 show ?thesis
      by blast
  qed
  have n: "totalMultiplier k = totalMultiplier g"
    if "advances n g = Inr k \<and> sint (tickCounter g) + int n < 60"
    using that advances_keep_cache by blast
  have f: "multiplierProduct (generators g) =
        fmul (fmul (fmul (fmul (lit 1) (manaMultiplier (generators g ! 0)))
                         (manaMultiplier (generators g ! 1)))
                   (manaMultiplier (generators g ! 2)))
             (manaMultiplier (generators g ! 3))"
    if "length (generators g) = 4"
    using that by (rule multiplierProduct_four)
  from p a n f show ?thesis
    by blast
qed


theorem totalMultiplier_cache_witness:
  "purchase 0 scenarioState = Inr scenarioBought \<and>
   fge (mana scenarioState) (cost (generators scenarioState ! 0)) \<and>
   sint (level (generators scenarioState ! 0)) < 100 \<and>
   totalMultiplier scenarioBought = multiplierProduct (generators scenarioBought) \<and>
   purchase 0 afterFirstRevolution = Inr afterFirstRevolution \<and>
   \<not> fge (mana afterFirstRevolution) (cost (generators afterFirstRevolution ! 0)) \<and>
   advance (idleState (Fin False 1) 59 (animClock 119)
            (Fin False (7015285770761545 / 1125899906842624))) = Inr afterFirstRevolution \<and>
   60 \<le> sint (tickCounter (idleState (Fin False 1) 59 (animClock 119)
            (Fin False (7015285770761545 / 1125899906842624))) + 1) \<and>
   totalMultiplier afterFirstRevolution
     = multiplierProduct (generators (idleState (Fin False 1) 59 (animClock 119)
            (Fin False (7015285770761545 / 1125899906842624)))) \<and>
   totalMultiplier afterFirstRevolution = lit 1 \<and>
   multiplierProduct (generators afterFirstRevolution) = lit (101 / 100) \<and>
   length (generators afterFirstRevolution) = 4 \<and>
   lit (101 / 100) =
     fmul (fmul (fmul (fmul (lit 1) (manaMultiplier (generators afterFirstRevolution ! 0)))
                      (manaMultiplier (generators afterFirstRevolution ! 1)))
                (manaMultiplier (generators afterFirstRevolution ! 2)))
          (manaMultiplier (generators afterFirstRevolution ! 3)) \<and>
   (\<exists>h. advance afterFirstRevolution = Inr h \<and> totalMultiplier h = lit 1 \<and>
        multiplierProduct (generators h) = lit (101 / 100)) \<and>
   sint (tickCounter afterFirstRevolution) + int 59 < 60 \<and>
   (\<exists>k. advances 59 afterFirstRevolution = Inr k \<and> totalMultiplier k = lit 1) \<and>
   (\<exists>h. advance NewGame = Inr h \<and>
        map manaMultiplier (generators h) = map manaMultiplier (generators NewGame) \<and>
        totalMultiplier NewGame = multiplierProduct (generators NewGame) \<and>
        totalMultiplier h = multiplierProduct (generators h))"
proof -
  let ?a = afterFirstRevolution
  let ?b = "idleState (Fin False 1) 59 (animClock 119)
            (Fin False (7015285770761545 / 1125899906842624))"
  let ?n = "idleState (Fin False 0) 1 (fadd (Fin False 0) (lit (16 / 1000)))
            (fadd (Fin False 0) crystalStep)"
  have e: "fge (mana scenarioState) (cost (generators scenarioState ! 0))"
    "sint (level (generators scenarioState ! 0)) < 100"
    by (simp_all add: scenarioState_def NewGame_fields initialGenerators_def fge_def sval_def lit_3)
  have poor: "\<not> fge (mana ?a) (cost (generators ?a ! 0))"
    by (simp add: afterFirstRevolution_def idleState_fields initialGenerators_def fge_def
        sval_def lit_3)
  have stay: "purchase 0 ?a = Inr ?a"
    using poor
    by (simp add: purchase_def afterFirstRevolution_def idleState_fields initialGenerators_def)
  have len: "length (generators ?a) = 4" "length (rotationAngles ?a) = 4"
    by (simp_all add: afterFirstRevolution_def idleState_fields initialGenerators_def)
  have tick: "60 \<le> sint (tickCounter ?b + 1)"
    "sint (tickCounter ?a) + int 59 < 60"
    by (simp_all add: afterFirstRevolution_def idleState_fields)
  obtain h where h: "advance ?a = Inr h" "totalMultiplier h = lit 1"
      "multiplierProduct (generators h) = lit (101 / 100)"
    using after_crossing_next_frame by blast
  obtain k where k: "advances 59 ?a = Inr k"
    using advances_total [of ?a 59] len by auto
  have new: "advance NewGame = Inr ?n"
    by (rule advance_NewGame)
  have same: "map manaMultiplier (generators ?n) = map manaMultiplier (generators NewGame)"
    "totalMultiplier NewGame = multiplierProduct (generators NewGame)"
    by (simp_all add: idleState_fields NewGame_fields multiplierProduct_initial)
  note t1 = totalMultiplier_cache [where g = scenarioState and i = 0 and g' = scenarioBought]
  note t2 = totalMultiplier_cache [where g = ?a and n = 59 and k = k]
  note t3 = totalMultiplier_cache [where g = ?b and h = ?a]
  note t4 = totalMultiplier_cache [where g = NewGame and h = ?n]
  have 1: "totalMultiplier scenarioBought = multiplierProduct (generators scenarioBought)"
    using t1 scenario_purchase e by blast
  have 2: "totalMultiplier k = lit 1"
    using t2 k tick(2) by (simp add: afterFirstRevolution_fields lit_1)
  have 3: "totalMultiplier ?a = multiplierProduct (generators ?b)"
    using t3 crossing_frame tick(1) by simp
  have 4: "totalMultiplier ?n = multiplierProduct (generators ?n)"
    using t4 new same by blast
  have 5: "lit (101 / 100) =
     fmul (fmul (fmul (fmul (lit 1) (manaMultiplier (generators ?a ! 0)))
                      (manaMultiplier (generators ?a ! 1)))
                (manaMultiplier (generators ?a ! 2)))
          (manaMultiplier (generators ?a ! 3))"
    using t2 len(1) by (simp add: afterFirstRevolution_fields)
  have 6: "totalMultiplier ?a = lit 1" "multiplierProduct (generators ?a) = lit (101 / 100)"
    by (simp_all add: afterFirstRevolution_fields lit_1)
  from scenario_purchase e 1 stay poor crossing_frame tick 3 6 len(1) 5 h k 2 new same 4
  show ?thesis
    by blast
qed

end
